theory Spec2Isabelle
  imports Main
begin

section \<open>Cross-phase merge (scripts/parse_wowhead_html.py)\<close>

text \<open>
  A slot map is the Python \<^verbatim>\<open>Dict[int, List[int]]\<close>: numeric slot id to ranked item ids.
  Python ints are unbounded, so both are \<^typ>\<open>int\<close>.
\<close>

type_synonym slot_map = "int \<rightharpoonup> int list"

text \<open>\<^verbatim>\<open>d.get(slot_id, [])\<close>\<close>

definition slot_get :: "slot_map \<Rightarrow> int \<Rightarrow> int list" where
  "slot_get m slot_id = (case m slot_id of None \<Rightarrow> [] | Some ranked \<Rightarrow> ranked)"

text \<open>
  The loop used throughout the parser:
  \<^verbatim>\<open>for item_id in src: if item_id not in ordered: ordered.append(item_id)\<close>
\<close>

fun append_new :: "'a list \<Rightarrow> 'a list \<Rightarrow> 'a list" where
  "append_new ordered [] = ordered"
| "append_new ordered (item_id # rest) =
     append_new (if item_id \<in> set ordered then ordered else ordered @ [item_id]) rest"

text \<open>The body of the loop over \<^verbatim>\<open>all_slot_ids\<close>: the list \<^verbatim>\<open>ordered\<close> of one slot.\<close>

definition merge_ordered :: "slot_map \<Rightarrow> slot_map \<Rightarrow> int \<Rightarrow> int list" where
  "merge_ordered prev_slots curr_slots slot_id =
     append_new (append_new [] (slot_get curr_slots slot_id)) (slot_get prev_slots slot_id)"

text \<open>
  \<^verbatim>\<open>merge_slot_maps\<close>: every key of \<^verbatim>\<open>set(prev_slots.keys()) | set(curr_slots.keys())\<close>
  is visited once and writes only its own entry of the fresh dict \<^verbatim>\<open>merged\<close>, and only
  when \<^verbatim>\<open>ordered\<close> is non-empty.
\<close>

definition merge_slot_maps :: "slot_map \<Rightarrow> slot_map \<Rightarrow> slot_map" where
  "merge_slot_maps prev_slots curr_slots =
     (\<lambda>slot_id.
        if slot_id \<in> dom prev_slots \<union> dom curr_slots then
          (let ordered = merge_ordered prev_slots curr_slots slot_id
           in if ordered \<noteq> [] then Some ordered else None)
        else None)"

text \<open>
  The specification's wording of the merged list: the items of a list in their existing
  order, skipping the ones already added.
\<close>

fun skip_added :: "'a list \<Rightarrow> 'a list \<Rightarrow> 'a list" where
  "skip_added added [] = []"
| "skip_added added (x # xs) =
     (if x \<in> set added then skip_added added xs else x # skip_added (added @ [x]) xs)"

definition spec_merge_list :: "'a list \<Rightarrow> 'a list \<Rightarrow> 'a list" where
  "spec_merge_list current prior =
     (let from_current = skip_added [] current
      in from_current @ skip_added from_current prior)"

subsection \<open>The phase loop of \<^verbatim>\<open>main\<close>\<close>

text \<open>
  The state of the loop \<^verbatim>\<open>for phase in range(1, 6)\<close> for one profile:
  \<^verbatim>\<open>prev_slot_map\<close>, and the \<^verbatim>\<open>"slots"\<close> entries stored so far in
  \<^verbatim>\<open>per_class_profiles[class_token][profile_name]\<close>, keyed by phase.
  The argument \<open>parsed\<close> gives, for each phase, the slot map the loop starts from:
  the result of \<^verbatim>\<open>parse_guide_slots\<close> when the phase has a file, the empty dict otherwise.
\<close>

record profile_state =
  prev_slot_map :: slot_map
  phase_slots :: "nat \<rightharpoonup> slot_map"

definition phase_step :: "(nat \<Rightarrow> slot_map) \<Rightarrow> nat \<Rightarrow> profile_state \<Rightarrow> profile_state" where
  "phase_step parsed phase st =
     (let slot_map = parsed phase;
          slot_map = (if phase > 1 then merge_slot_maps (prev_slot_map st) slot_map else slot_map)
      in if dom slot_map \<noteq> {}
         then st\<lparr>phase_slots := (phase_slots st)(phase \<mapsto> slot_map), prev_slot_map := slot_map\<rparr>
         else st)"

definition initial_profile_state :: profile_state where
  "initial_profile_state = \<lparr>prev_slot_map = Map.empty, phase_slots = Map.empty\<rparr>"

definition merge_phases :: "(nat \<Rightarrow> slot_map) \<Rightarrow> profile_state" where
  "merge_phases parsed = fold (phase_step parsed) [1..<6] initial_profile_state"

text \<open>
  What \<^verbatim>\<open>write_class_file\<close> reads for a phase and a slot: the stored slots, or the
  default \<^verbatim>\<open>{"slots": {}}\<close> when the phase stored nothing.
\<close>

definition phase_items :: "profile_state \<Rightarrow> nat \<Rightarrow> int \<Rightarrow> int list" where
  "phase_items st phase slot_id =
     slot_get (case phase_slots st phase of None \<Rightarrow> Map.empty | Some slots \<Rightarrow> slots) slot_id"

text \<open>The list of a slot after phases \<open>1..n\<close>, merge by merge.\<close>

fun items_upto :: "(nat \<Rightarrow> slot_map) \<Rightarrow> int \<Rightarrow> nat \<Rightarrow> int list" where
  "items_upto parsed s 0 = []"
| "items_upto parsed s (Suc 0) = slot_get (parsed 1) s"
| "items_upto parsed s (Suc (Suc n)) =
     spec_merge_list (slot_get (parsed (Suc (Suc n))) s) (items_upto parsed s (Suc n))"

definition phases_inv :: "(nat \<Rightarrow> slot_map) \<Rightarrow> nat \<Rightarrow> profile_state \<Rightarrow> bool" where
  "phases_inv parsed n st \<longleftrightarrow>
     (\<forall>s. slot_get (prev_slot_map st) s = items_upto parsed s n)
     \<and> (\<forall>s k. 1 \<le> k \<and> k \<le> n \<longrightarrow> phase_items st k s = items_upto parsed s k)
     \<and> (\<forall>k. n < k \<longrightarrow> phase_slots st k = None)"

section \<open>The merge on a store of objects\<close>

text \<open>
  Python dicts and lists are objects that can be shared and mutated. To state what
  \<^verbatim>\<open>merge_slot_maps\<close> does to its arguments, the store holds the dict objects (slot id to
  the address of a list object) and the list objects, with the next free address.
\<close>

record store =
  dict_objs :: "nat \<rightharpoonup> (int \<rightharpoonup> nat)"
  list_objs :: "nat \<rightharpoonup> int list"
  next_addr :: nat

text \<open>\<^verbatim>\<open>{}\<close> and \<^verbatim>\<open>[]\<close>: a new object at the next free address.\<close>

definition alloc_dict :: "store \<Rightarrow> nat \<times> store" where
  "alloc_dict h =
     (next_addr h,
      h\<lparr>dict_objs := (dict_objs h)(next_addr h \<mapsto> Map.empty), next_addr := Suc (next_addr h)\<rparr>)"

definition alloc_list :: "store \<Rightarrow> nat \<times> store" where
  "alloc_list h =
     (next_addr h,
      h\<lparr>list_objs := (list_objs h)(next_addr h \<mapsto> []), next_addr := Suc (next_addr h)\<rparr>)"

definition read_list :: "store \<Rightarrow> nat \<Rightarrow> int list" where
  "read_list h a = (case list_objs h a of None \<Rightarrow> [] | Some xs \<Rightarrow> xs)"

definition dict_get :: "store \<Rightarrow> nat \<Rightarrow> int \<Rightarrow> nat option" where
  "dict_get h d slot_id = (case dict_objs h d of None \<Rightarrow> None | Some m \<Rightarrow> m slot_id)"

text \<open>The items of \<^verbatim>\<open>d.get(slot_id, [])\<close>.\<close>

definition get_items :: "store \<Rightarrow> nat \<Rightarrow> int \<Rightarrow> int list" where
  "get_items h d slot_id = (case dict_get h d slot_id of None \<Rightarrow> [] | Some a \<Rightarrow> read_list h a)"

text \<open>\<^verbatim>\<open>ordered.append(item_id)\<close> and \<^verbatim>\<open>merged[slot_id] = ordered\<close>: the two writes.\<close>

definition list_append :: "store \<Rightarrow> nat \<Rightarrow> int \<Rightarrow> store" where
  "list_append h a x = h\<lparr>list_objs := (list_objs h)(a \<mapsto> read_list h a @ [x])\<rparr>"

definition dict_set :: "store \<Rightarrow> nat \<Rightarrow> int \<Rightarrow> nat \<Rightarrow> store" where
  "dict_set h d k v =
     h\<lparr>dict_objs := (dict_objs h)
          (d \<mapsto> (case dict_objs h d of None \<Rightarrow> Map.empty | Some m \<Rightarrow> m)(k \<mapsto> v))\<rparr>"

text \<open>
  \<^verbatim>\<open>for item_id in src: if item_id not in ordered: ordered.append(item_id)\<close>, where
  \<open>ordered\<close> is the address of the list that grows and \<open>src\<close> the items iterated over.
\<close>

fun append_new_store :: "nat \<Rightarrow> int list \<Rightarrow> store \<Rightarrow> store" where
  "append_new_store ordered [] h = h"
| "append_new_store ordered (item_id # rest) h =
     append_new_store ordered rest
       (if item_id \<in> set (read_list h ordered) then h else list_append h ordered item_id)"

text \<open>The body of the loop over \<^verbatim>\<open>all_slot_ids\<close>.\<close>

definition merge_slot_step :: "nat \<Rightarrow> nat \<Rightarrow> nat \<Rightarrow> int \<Rightarrow> store \<Rightarrow> store" where
  "merge_slot_step merged prev_slots curr_slots slot_id h =
     (case alloc_list h of
        (ordered, h1) \<Rightarrow>
          let h2 = append_new_store ordered (get_items h1 curr_slots slot_id) h1;
              h3 = append_new_store ordered (get_items h2 prev_slots slot_id) h2
          in if read_list h3 ordered \<noteq> [] then dict_set h3 merged slot_id ordered else h3)"

text \<open>
  \<^verbatim>\<open>merge_slot_maps\<close> on the store. The order in which Python iterates over the set
  \<^verbatim>\<open>all_slot_ids\<close> is not specified; \<open>slot_ids\<close> is that order. The result is the address
  of \<^verbatim>\<open>merged\<close> and the store after the call.
\<close>

definition merge_slot_maps_store :: "int list \<Rightarrow> nat \<Rightarrow> nat \<Rightarrow> store \<Rightarrow> nat \<times> store" where
  "merge_slot_maps_store slot_ids prev_slots curr_slots h =
     (case alloc_dict h of
        (merged, h1) \<Rightarrow> (merged, fold (merge_slot_step merged prev_slots curr_slots) slot_ids h1))"

text \<open>The slot map a dict object stands for.\<close>

definition read_map :: "store \<Rightarrow> nat \<Rightarrow> slot_map" where
  "read_map h d =
     (\<lambda>slot_id. case dict_get h d slot_id of None \<Rightarrow> None | Some a \<Rightarrow> Some (read_list h a))"

text \<open>
  A dict that exists before the call: it and the lists it holds lie below the next free
  address.
\<close>

definition allocated_map :: "store \<Rightarrow> nat \<Rightarrow> bool" where
  "allocated_map h d \<longleftrightarrow>
     d < next_addr h \<and> (\<forall>slot_id a. dict_get h d slot_id = Some a \<longrightarrow> a < next_addr h)"

text \<open>
  The invariant of the loop: \<open>h0\<close> is the store before the call, whose next free
  address becomes the dict \<open>merged\<close>; \<open>done\<close> holds the slots visited so far.
\<close>

definition merge_inv :: "store \<Rightarrow> nat \<Rightarrow> nat \<Rightarrow> int set \<Rightarrow> store \<Rightarrow> bool" where
  "merge_inv h0 prev_slots curr_slots done h \<longleftrightarrow>
     next_addr h0 < next_addr h
     \<and> (\<forall>a < next_addr h0. dict_objs h a = dict_objs h0 a \<and> list_objs h a = list_objs h0 a)
     \<and> (\<forall>s a. dict_get h (next_addr h0) s = Some a \<longrightarrow> next_addr h0 < a \<and> a < next_addr h)
     \<and> (\<forall>s. read_map h (next_addr h0) s =
              (if s \<in> done \<and> merge_ordered (read_map h0 prev_slots) (read_map h0 curr_slots) s \<noteq> []
               then Some (merge_ordered (read_map h0 prev_slots) (read_map h0 curr_slots) s)
               else None))"

section \<open>Strings\<close>

text \<open>
  A string is a list of characters, and a character is a Unicode code point below 256
  (ASCII and Latin-1). On these, \<^verbatim>\<open>str.lower()\<close> maps \<^verbatim>\<open>A\<close>..\<^verbatim>\<open>Z\<close> and the upper-case
  letters \<^verbatim>\<open>0xC0\<close>..\<^verbatim>\<open>0xDE\<close> (but not the sign \<^verbatim>\<open>0xD7\<close>) to the code point 32 above and
  leaves every other character as it is. Text with code points from 256 on is outside
  this model.
\<close>

definition lower_char :: "char \<Rightarrow> char" where
  "lower_char c =
     (let n = (of_char c :: nat) in
      if (65 \<le> n \<and> n \<le> 90) \<or> (192 \<le> n \<and> n \<le> 222 \<and> n \<noteq> 215)
      then char_of (n + 32) else c)"

definition lower :: "string \<Rightarrow> string" where
  "lower s = map lower_char s"

text \<open>\<^verbatim>\<open>s.startswith(p)\<close> and \<^verbatim>\<open>sub in s\<close>\<close>

fun startswith :: "'a list \<Rightarrow> 'a list \<Rightarrow> bool" where
  "startswith s [] = True"
| "startswith [] (p # ps) = False"
| "startswith (c # cs) (p # ps) = (c = p \<and> startswith cs ps)"

fun contains :: "'a list \<Rightarrow> 'a list \<Rightarrow> bool" where
  "contains sub [] = (sub = [])"
| "contains sub (c # cs) = (startswith (c # cs) sub \<or> contains sub cs)"

section \<open>Numeric slot classifier (scripts/parse_wowhead_html.py)\<close>

definition is_weapon_hand_section :: "string \<Rightarrow> bool" where
  "is_weapon_hand_section lowered \<longleftrightarrow>
     (contains ''dual-wield'' lowered \<or> contains ''dual wield'' lowered)
     \<or> contains ''weapon'' lowered
     \<or> contains ''handed'' lowered
     \<or> contains ''one-hand'' lowered
     \<or> contains ''one hand'' lowered
     \<or> contains ''1-hand'' lowered
     \<or> contains ''1 hand'' lowered
     \<or> contains ''two-hand'' lowered
     \<or> contains ''two hand'' lowered
     \<or> contains ''2-hand'' lowered
     \<or> contains ''2 hand'' lowered
     \<or> contains ''main hand'' lowered
     \<or> contains ''off-hand'' lowered
     \<or> contains ''off hand'' lowered
     \<or> contains ''mainhand'' lowered
     \<or> contains ''offhand'' lowered
     \<or> contains ''mainhands'' lowered
     \<or> contains ''offhands'' lowered"

definition has_offhand :: "string \<Rightarrow> string \<Rightarrow> bool" where
  "has_offhand lowered section_lowered \<longleftrightarrow>
     contains ''off-hand'' lowered
     \<or> contains ''off hand'' lowered
     \<or> contains ''offhand'' lowered
     \<or> contains ''offhands'' lowered
     \<or> contains ''shield'' lowered
     \<or> contains ''off-hand'' section_lowered
     \<or> contains ''off hand'' section_lowered
     \<or> contains ''offhand'' section_lowered
     \<or> contains ''offhands'' section_lowered"

definition has_mainhand :: "string \<Rightarrow> string \<Rightarrow> bool" where
  "has_mainhand lowered section_lowered \<longleftrightarrow>
     contains ''weapon'' lowered
     \<or> contains ''main hand'' lowered
     \<or> contains ''main-hand'' lowered
     \<or> contains ''mainhand'' lowered
     \<or> contains ''mainhands'' lowered
     \<or> contains ''main hand'' section_lowered
     \<or> contains ''main-hand'' section_lowered
     \<or> contains ''mainhand'' section_lowered"

definition section_slot_ids :: "string \<Rightarrow> string \<Rightarrow> int list" where
  "section_slot_ids heading_text section_text =
     (let lowered = lower heading_text in
      if contains ''head'' lowered then [1]
      else if contains ''neck'' lowered then [2]
      else if contains ''shoulder'' lowered then [3]
      else if contains ''back'' lowered \<or> contains ''cloak'' lowered then [15]
      else if contains ''chest'' lowered then [5]
      else if contains ''wrist'' lowered then [9]
      else
        let has_dual_wield = (contains ''dual-wield'' lowered \<or> contains ''dual wield'' lowered);
            section_lowered = lower section_text
        in
        if contains ''idol'' lowered \<or> contains ''relic'' lowered \<or> contains ''totem'' lowered
           \<or> contains ''libram'' lowered \<or> contains ''ranged'' lowered \<or> contains ''wand'' lowered
        then [18]
        else if (contains ''hand'' lowered \<or> contains ''glove'' lowered)
                \<and> \<not> is_weapon_hand_section lowered then [10]
        else if contains ''waist'' lowered \<or> contains ''belt'' lowered then [6]
        else if contains ''leg'' lowered then [7]
        else if contains ''feet'' lowered \<or> contains ''boot'' lowered then [8]
        else if contains ''ring'' lowered then [11, 12]
        else if contains ''trinket'' lowered then [13, 14]
        else if has_dual_wield then [16, 17]
        else if has_offhand lowered section_lowered \<and> has_mainhand lowered section_lowered then [16, 17]
        else if has_offhand lowered section_lowered then [17]
        else if has_mainhand lowered section_lowered \<and> has_offhand lowered section_lowered then [16, 17]
        else if has_mainhand lowered section_lowered then [16]
        else [])"

text \<open>
  The keywords tested before the hand test of \<^verbatim>\<open>section_slot_ids\<close>: a heading that holds
  one of them is classified by that earlier branch.
\<close>

definition earlier_slot_keyword :: "string \<Rightarrow> bool" where
  "earlier_slot_keyword lowered \<longleftrightarrow>
     contains ''head'' lowered \<or> contains ''neck'' lowered \<or> contains ''shoulder'' lowered
     \<or> contains ''back'' lowered \<or> contains ''cloak'' lowered \<or> contains ''chest'' lowered
     \<or> contains ''wrist'' lowered \<or> contains ''idol'' lowered \<or> contains ''relic'' lowered
     \<or> contains ''totem'' lowered \<or> contains ''libram'' lowered \<or> contains ''ranged'' lowered
     \<or> contains ''wand'' lowered"

text \<open>
  A weapon cue in the heading: one of \<open>is_weapon_hand_section\<close>, or one that
  \<open>has_mainhand\<close> or \<open>has_offhand\<close> look for in the heading.
\<close>

definition heading_weapon_cue :: "string \<Rightarrow> bool" where
  "heading_weapon_cue lowered \<longleftrightarrow>
     is_weapon_hand_section lowered \<or> has_mainhand lowered [] \<or> has_offhand lowered []"

text \<open>
  The specification's wording of a weapon cue: "weapon", "handed", "main hand" or
  "off hand", case-insensitively, in the heading or in the section body.
\<close>

definition spec_weapon_cue :: "string \<Rightarrow> string \<Rightarrow> bool" where
  "spec_weapon_cue heading_text section_text \<longleftrightarrow>
     (\<exists>cue \<in> set [''weapon'', ''handed'', ''main hand'', ''off hand''].
        contains cue (lower heading_text) \<or> contains cue (lower section_text))"

section \<open>Regular expressions of the extractors\<close>

text \<open>
  The scripts search with Python's \<^verbatim>\<open>re\<close>. Each pattern is written out here as the
  function that decides a match at the start of its argument and returns the captured
  group with the text left after the match. \<^verbatim>\<open>finditer\<close> then tries every position from
  left to right and resumes after a match, as \<^verbatim>\<open>re\<close> does.
\<close>

text \<open>
  \<^verbatim>\<open>\s\<close> and \<^verbatim>\<open>str.strip()\<close>: tab, line feed, VT, FF, CR, FS, GS, RS, US, space,
  NEL (\<^verbatim>\<open>0x85\<close>) and the no-break space (\<^verbatim>\<open>0xA0\<close>). \<^verbatim>\<open>\d\<close>: the ten ASCII digits, the only
  decimal digits below 256.
\<close>

definition is_space :: "char \<Rightarrow> bool" where
  "is_space c \<longleftrightarrow>
     c \<in> set [CHR 0x09, CHR 0x0A, CHR 0x0B, CHR 0x0C, CHR 0x0D,
               CHR 0x1C, CHR 0x1D, CHR 0x1E, CHR 0x1F, CHR 0x20, CHR 0x85, CHR 0xA0]"

definition is_digit :: "char \<Rightarrow> bool" where
  "is_digit c \<longleftrightarrow> c \<in> set ''0123456789''"

definition strip :: "string \<Rightarrow> string" where
  "strip s = rev (dropWhile is_space (rev (dropWhile is_space s)))"

text \<open>\<^verbatim>\<open>s.endswith(p)\<close>\<close>

definition endswith :: "'a list \<Rightarrow> 'a list \<Rightarrow> bool" where
  "endswith s p = startswith (rev s) (rev p)"

text \<open>\<^verbatim>\<open>int(x)\<close> on a string of decimal digits.\<close>

definition digit_value :: "char \<Rightarrow> int" where
  "digit_value c = (case map_of (zip ''0123456789'' [0, 1, 2, 3, 4, 5, 6, 7, 8, 9]) c of
                      Some d \<Rightarrow> d | None \<Rightarrow> 0)"

definition int_of_digits :: "string \<Rightarrow> int" where
  "int_of_digits ds = foldl (\<lambda>acc c. 10 * acc + digit_value c) 0 ds"

text \<open>A literal under \<^verbatim>\<open>re.IGNORECASE\<close> at the start of the text.\<close>

fun startswith_ci :: "string \<Rightarrow> string \<Rightarrow> bool" where
  "startswith_ci s [] = True"
| "startswith_ci [] (p # ps) = False"
| "startswith_ci (c # cs) (p # ps) = (lower_char c = lower_char p \<and> startswith_ci cs ps)"

text \<open>
  \<^verbatim>\<open>(.*?)close\<close> under \<^verbatim>\<open>re.DOTALL | re.IGNORECASE\<close>: the text up to the first
  occurrence of the literal, and the text after it.
\<close>

fun lazy_until_ci :: "string \<Rightarrow> string \<Rightarrow> (string \<times> string) option" where
  "lazy_until_ci close [] = (if close = [] then Some ([], []) else None)"
| "lazy_until_ci close (c # cs) =
     (if startswith_ci (c # cs) close then Some ([], drop (length close) (c # cs))
      else (case lazy_until_ci close cs of
              None \<Rightarrow> None
            | Some (g, rest) \<Rightarrow> Some (c # g, rest)))"

text \<open>
  \<^verbatim>\<open>open[^\]]*\](.*?)close\<close>: the opening literal, anything up to the first
  \<^verbatim>\<open>]\<close>, the body up to the first closing literal. The greedy class stops at the first
  \<^verbatim>\<open>]\<close> and giving characters back cannot help, since what follows it must be \<^verbatim>\<open>]\<close>.
\<close>

definition match_block_ci :: "string \<Rightarrow> string \<Rightarrow> string \<Rightarrow> (string \<times> string) option" where
  "match_block_ci opening close s =
     (if startswith_ci s opening then
        (case dropWhile (\<lambda>c. c \<noteq> CHR '']'') (drop (length opening) s) of
           [] \<Rightarrow> None
         | _ # body \<Rightarrow> lazy_until_ci close body)
      else None)"

text \<open>\<^verbatim>\<open>TABLE_RE\<close>, \<^verbatim>\<open>TD_RE\<close>, \<^verbatim>\<open>H4_RE\<close> and \<^verbatim>\<open>TR_RE = \[tr\](.*?)\[/tr\]\<close>\<close>

definition table_match :: "string \<Rightarrow> (string \<times> string) option" where
  "table_match = match_block_ci ''[table'' ''[/table]''"

definition td_match :: "string \<Rightarrow> (string \<times> string) option" where
  "td_match = match_block_ci ''[td'' ''[/td]''"

definition h4_match :: "string \<Rightarrow> (string \<times> string) option" where
  "h4_match = match_block_ci ''[h4'' ''[/h4]''"

definition tr_match :: "string \<Rightarrow> (string \<times> string) option" where
  "tr_match s = (if startswith_ci s ''[tr]'' then lazy_until_ci ''[/tr]'' (drop 4 s) else None)"

text \<open>\<^verbatim>\<open>\d+\]\<close>: the longest run of digits, at least one, then \<^verbatim>\<open>]\<close>.\<close>

definition digits_then_bracket :: "string \<Rightarrow> (string \<times> string) option" where
  "digits_then_bracket s =
     (let digits = takeWhile is_digit s in
      if digits = [] then None
      else (case dropWhile is_digit s of
              [] \<Rightarrow> None
            | c # rest \<Rightarrow> if c = CHR '']'' then Some (digits, rest) else None))"

text \<open>\<^verbatim>\<open>ITEM_RE = \[item=(\d+)\]\<close>\<close>

definition item_match :: "string \<Rightarrow> (string \<times> string) option" where
  "item_match s = (if startswith_ci s ''[item='' then digits_then_bracket (drop 6 s) else None)"

text \<open>\<^verbatim>\<open>REF_RE = \[(item|spell)=(\d+)\]\<close>: both groups, the first as it is written in the text.\<close>

definition ref_match :: "string \<Rightarrow> ((string \<times> string) \<times> string) option" where
  "ref_match s =
     (let kind_len = (if startswith_ci s ''[item='' then Some 4
                      else if startswith_ci s ''[spell='' then Some 5 else None)
      in case kind_len of
           None \<Rightarrow> None
         | Some n \<Rightarrow>
             (case digits_then_bracket (drop (n + 2) s) of
                None \<Rightarrow> None
              | Some (digits, rest) \<Rightarrow> Some ((take n (drop 1 s), digits), rest)))"

text \<open>
  \<^verbatim>\<open>H3_RE = \[h3[^\]]*toc=\"([^\"]+)\"[^\]]*\].*?\[/h3\]\<close>.
  \<open>h3_toc_here\<close> is the pattern from \<^verbatim>\<open>toc=\<close> on. The class before it is greedy, so
  \<open>h3_scan\<close> prefers the attribute that starts latest before the first \<^verbatim>\<open>]\<close>, and falls
  back to an earlier one when the rest of the pattern fails there.
\<close>

definition h3_toc_here :: "string \<Rightarrow> (string \<times> string) option" where
  "h3_toc_here s =
     (if startswith_ci s ''toc=\"'' then
        (let toc = takeWhile (\<lambda>c. c \<noteq> CHR 0x22) (drop 5 s) in
         if toc = [] then None
         else (case dropWhile (\<lambda>c. c \<noteq> CHR 0x22) (drop 5 s) of
                 [] \<Rightarrow> None
               | _ # after_quote \<Rightarrow>
                   (case dropWhile (\<lambda>c. c \<noteq> CHR '']'') after_quote of
                      [] \<Rightarrow> None
                    | _ # body \<Rightarrow>
                        (case lazy_until_ci ''[/h3]'' body of
                           None \<Rightarrow> None
                         | Some (_, rest) \<Rightarrow> Some (toc, rest)))))
      else None)"

fun h3_scan :: "string \<Rightarrow> (string \<times> string) option" where
  "h3_scan [] = h3_toc_here []"
| "h3_scan (c # cs) =
     (if c = CHR '']'' then h3_toc_here (c # cs)
      else (case h3_scan cs of
              Some found \<Rightarrow> Some found
            | None \<Rightarrow> h3_toc_here (c # cs)))"

definition h3_match :: "string \<Rightarrow> (string \<times> string) option" where
  "h3_match s = (if startswith_ci s ''[h3'' then h3_scan (drop 3 s) else None)"

text \<open>
  \<^verbatim>\<open>pattern.finditer(s)\<close> as the list of \<^verbatim>\<open>(m.start(), m.end(), group)\<close>. No pattern of
  the scripts matches the empty string (lemmas \<open>patterns_consume\<close> and \<open>ref_match_consumes\<close>), so the test
  on the lengths always succeeds and \<^verbatim>\<open>re\<close>'s rule for empty matches never applies.
\<close>

function finditer :: "(string \<Rightarrow> ('g \<times> string) option) \<Rightarrow> nat \<Rightarrow> string \<Rightarrow> (nat \<times> nat \<times> 'g) list" where
  "finditer m pos [] = []"
| "finditer m pos (c # cs) =
     (case m (c # cs) of
        None \<Rightarrow> finditer m (Suc pos) cs
      | Some (g, rest) \<Rightarrow>
          (if length rest < length (c # cs)
           then (pos, pos + (length (c # cs) - length rest), g)
                  # finditer m (pos + (length (c # cs) - length rest)) rest
           else []))"
  by pat_completeness auto
termination
  by (relation "measure (\<lambda>(m, pos, s). length s)") auto

text \<open>\<^verbatim>\<open>pattern.findall(s)\<close> for a pattern with one group (or the tuple of its groups).\<close>

definition findall :: "(string \<Rightarrow> ('g \<times> string) option) \<Rightarrow> string \<Rightarrow> 'g list" where
  "findall m s = map (\<lambda>(start, end, g). g) (finditer m 0 s)"

text \<open>\<^verbatim>\<open>TAG_RE.sub("", text)\<close> with \<^verbatim>\<open>TAG_RE = \[[^\]]+\]\<close>\<close>

function remove_tags :: "string \<Rightarrow> string" where
  "remove_tags [] = []"
| "remove_tags (c # cs) =
     (if c = CHR ''['' \<and> takeWhile (\<lambda>c. c \<noteq> CHR '']'') cs \<noteq> []
         \<and> dropWhile (\<lambda>c. c \<noteq> CHR '']'') cs \<noteq> []
      then remove_tags (tl (dropWhile (\<lambda>c. c \<noteq> CHR '']'') cs))
      else c # remove_tags cs)"
  by pat_completeness auto
termination
proof (relation "measure length")
  fix c :: char and cs :: string
  have "length (dropWhile (\<lambda>c. c \<noteq> CHR '']'') cs) \<le> length cs"
    by (rule length_dropWhile_le)
  then have "length (tl (dropWhile (\<lambda>c. c \<noteq> CHR '']'') cs)) \<le> length cs"
    by simp
  then show "(tl (dropWhile (\<lambda>c. c \<noteq> CHR '']'') cs), c # cs) \<in> measure length"
    by simp
qed auto

text \<open>\<^verbatim>\<open>WS_RE.sub(" ", text)\<close> with \<^verbatim>\<open>WS_RE = \s+\<close>\<close>

function collapse_ws :: "string \<Rightarrow> string" where
  "collapse_ws [] = []"
| "collapse_ws (c # cs) =
     (if is_space c then CHR '' '' # collapse_ws (dropWhile is_space cs)
      else c # collapse_ws cs)"
  by pat_completeness auto
termination
proof (relation "measure length")
  fix c :: char and cs :: string
  have "length (dropWhile is_space cs) \<le> length cs" by (rule length_dropWhile_le)
  then show "(dropWhile is_space cs, c # cs) \<in> measure length" by simp
qed auto

text \<open>\<^verbatim>\<open>clean_text\<close> of scripts/extract\_wowhead\_items.py\<close>

definition clean_text :: "string \<Rightarrow> string" where
  "clean_text text = strip (collapse_ws (remove_tags text))"

section \<open>Row and item extractor (scripts/extract\_wowhead\_items.py)\<close>

subsection \<open>\<^verbatim>\<open>normalize_slot\<close>\<close>

text \<open>
  \<^verbatim>\<open>re.sub(r"\s+for\s+.+$", "", cleaned, flags=re.IGNORECASE)\<close>.
  \<open>for_clause_tail\<close> decides \<^verbatim>\<open>\s+.+\<close> on the text between \<^verbatim>\<open>for\<close> and the place where
  \<^verbatim>\<open>$\<close> holds: some white space, then at least one character, none of them a line feed.
  \<^verbatim>\<open>$\<close> holds at the end of the text and before a line feed that ends it; that line feed
  is kept. The leftmost match starts at the first white space that has such a clause
  after its run.
\<close>

definition for_clause_tail :: "string \<Rightarrow> bool" where
  "for_clause_tail core =
     (let ws = takeWhile is_space core; rest = dropWhile is_space core in
      if rest \<noteq> [] then ws \<noteq> [] \<and> CHR 0x0A \<notin> set rest
      else 2 \<le> length ws \<and> last ws \<noteq> CHR 0x0A)"

definition for_clause_here :: "string \<Rightarrow> string option" where
  "for_clause_here s =
     (let after_ws = dropWhile is_space s in
      if startswith_ci after_ws ''for'' then
        (let t = drop 3 after_ws in
         if t \<noteq> [] \<and> last t = CHR 0x0A
         then (if for_clause_tail (butlast t) then Some [CHR 0x0A] else None)
         else (if for_clause_tail t then Some [] else None))
      else None)"

fun strip_for_clause :: "string \<Rightarrow> string" where
  "strip_for_clause [] = []"
| "strip_for_clause (c # cs) =
     (if is_space c then
        (case for_clause_here (c # cs) of
           Some kept \<Rightarrow> kept
         | None \<Rightarrow> c # strip_for_clause cs)
      else c # strip_for_clause cs)"

definition slot_alias :: "(string \<times> string) list" where
  "slot_alias =
    [(''shoulder'', ''Shoulders''),
     (''shoulders'', ''Shoulders''),
     (''back'', ''Back''),
     (''chest'', ''Chest''),
     (''wrist'', ''Wrist''),
     (''wrists'', ''Wrist''),
     (''hands'', ''Hands''),
     (''hand'', ''Hands''),
     (''waist'', ''Waist''),
     (''legs'', ''Legs''),
     (''feet'', ''Feet''),
     (''neck'', ''Neck''),
     (''head'', ''Head''),
     (''ring'', ''Rings''),
     (''rings'', ''Rings''),
     (''finger'', ''Rings''),
     (''fingers'', ''Rings''),
     (''trinket'', ''Trinkets''),
     (''trinkets'', ''Trinkets''),
     (''weapon'', ''Weapons''),
     (''weapons'', ''Weapons''),
     (''1-handed weapon'', ''Weapons''),
     (''1-handed weapons'', ''Weapons''),
     (''1handed weapon'', ''Weapons''),
     (''1handed weapons'', ''Weapons''),
     (''one-handed weapon'', ''Weapons''),
     (''one-handed weapons'', ''Weapons''),
     (''1h weapons'', ''Main-Hand''),
     (''2h weapons'', ''Main-Hand''),
     (''off-hand'', ''Off-Hand''),
     (''off-hands'', ''Off-Hand''),
     (''off hand'', ''Off-Hand''),
     (''offhands'', ''Off-Hand''),
     (''offhands and shields'', ''Off-Hand''),
     (''off-hands and shields'', ''Off-Hand''),
     (''shields / off-hands'', ''Off-Hand''),
     (''shields & offhands'', ''Off-Hand''),
     (''shields & offhands'', ''Off-Hand''),
     (''main-hand'', ''Main-Hand''),
     (''main hand'', ''Main-Hand''),
     (''main-hands'', ''Main-Hand''),
     (''totem'', ''Totems''),
     (''totems'', ''Totems''),
     (''idol'', ''Idols''),
     (''idols'', ''Idols''),
     (''libram'', ''Librams''),
     (''librams'', ''Librams''),
     (''ranged'', ''Ranged'')]"

definition normalize_slot :: "string \<Rightarrow> string" where
  "normalize_slot raw =
     (let cleaned = strip raw;
          cleaned = strip_for_clause cleaned;
          cleaned = strip (collapse_ws cleaned);
          key = lower cleaned
      in case map_of slot_alias key of Some slot \<Rightarrow> slot | None \<Rightarrow> cleaned)"

definition VALID_SLOTS :: "string list" where
  "VALID_SLOTS =
    [''Head'', ''Shoulders'', ''Back'', ''Chest'', ''Wrist'', ''Hands'', ''Waist'', ''Legs'',
     ''Feet'', ''Neck'', ''Rings'', ''Trinkets'', ''Weapons'', ''Off-Hand'', ''Main-Hand'',
     ''Totems'', ''Idols'', ''Librams'', ''Ranged'']"

definition ENHANCEMENT_SLOT_ALIASES :: "(string \<times> string) list" where
  "ENHANCEMENT_SLOT_ALIASES =
    [(''head enchant'', ''Head''),
     (''shoulder enchant'', ''Shoulders''),
     (''cloak enchant'', ''Back''),
     (''chest enchant'', ''Chest''),
     (''bracer enchant'', ''Wrist''),
     (''gloves enchant'', ''Hands''),
     (''legs enchant'', ''Legs''),
     (''leg enchant'', ''Legs''),
     (''boots enchant'', ''Feet''),
     (''weapon enchant'', ''Weapons''),
     (''main-hand enchant'', ''Main-Hand''),
     (''off-hand enchant'', ''Off-Hand''),
     (''rings enchant'', ''Rings''),
     (''ring enchant'', ''Rings'')]"

definition GEM_GROUP_ALIASES :: "(string \<times> string) list" where
  "GEM_GROUP_ALIASES =
    [(''best meta'', ''Meta''),
     (''best meta gems'', ''Meta''),
     (''meta gem'', ''Meta''),
     (''meta gems'', ''Meta''),
     (''best red'', ''Red''),
     (''best red gems'', ''Red''),
     (''red gem'', ''Red''),
     (''red gems'', ''Red''),
     (''best yellow'', ''Yellow''),
     (''best yellow gems'', ''Yellow''),
     (''yellow gem'', ''Yellow''),
     (''yellow gems'', ''Yellow''),
     (''best blue'', ''Blue''),
     (''best blue gems'', ''Blue''),
     (''blue gem'', ''Blue''),
     (''blue gems'', ''Blue'')]"

definition VALID_ENHANCEMENT_BUCKETS :: "string list" where
  "VALID_ENHANCEMENT_BUCKETS = [''Meta'', ''Red'', ''Yellow'', ''Blue''] @ VALID_SLOTS"

definition normalize_enhancement_bucket :: "string \<Rightarrow> string" where
  "normalize_enhancement_bucket raw =
     (let cleaned = lower (strip (collapse_ws (strip raw))) in
      case map_of GEM_GROUP_ALIASES cleaned of
        Some bucket \<Rightarrow> bucket
      | None \<Rightarrow>
          (case map_of ENHANCEMENT_SLOT_ALIASES cleaned of
             Some slot \<Rightarrow> slot
           | None \<Rightarrow>
               (if endswith cleaned '' enchant''
                   \<and> normalize_slot (take (length cleaned - 8) cleaned) \<in> set VALID_SLOTS
                then normalize_slot (take (length cleaned - 8) cleaned)
                else strip raw)))"

subsection \<open>Ranked item entries\<close>

text \<open>
  One row dict of the result. \<^verbatim>\<open>order\<close>, \<^verbatim>\<open>tie_group_size\<close> and \<^verbatim>\<open>tie_group_index\<close> are
  counters that start at 1, hence naturals. A key the dict does not have
  (\<^verbatim>\<open>item_id\<close> and \<^verbatim>\<open>item_name\<close> of a spell, \<^verbatim>\<open>spell_id\<close> of an item) and a name the lookup
  does not know are \<open>None\<close>.
\<close>

record ranked_item =
  order :: nat
  rank :: string
  item_id :: "int option"
  item_name :: "string option"
  spell_id :: "int option"
  source :: string
  tie_group_size :: nat
  tie_group_index :: nat
  tie_with_previous :: bool
  ref_type :: string
  ref_id :: int

type_synonym item_lookup = "string \<rightharpoonup> string"

text \<open>\<^verbatim>\<open>str(n)\<close> of an integer: its decimal digits, with a sign when negative.\<close>

fun str_nat :: "nat \<Rightarrow> string" where
  "str_nat n = (if n < 10 then [''0123456789'' ! n] else str_nat (n div 10) @ [''0123456789'' ! (n mod 10)])"

declare str_nat.simps [simp del]

definition str_int :: "int \<Rightarrow> string" where
  "str_int i = (if i < 0 then CHR ''-'' # str_nat (nat (- i)) else str_nat (nat i))"

subsection \<open>\<^verbatim>\<open>_extract_inline_refs\<close>\<close>

definition inline_row :: "item_lookup \<Rightarrow> nat \<Rightarrow> string \<Rightarrow> string \<Rightarrow> ranked_item" where
  "inline_row lookup ord kind digits =
     \<lparr>order = ord,
      rank = (if ord = 1 then ''Best'' else ''Alternative''),
      item_id = (if kind = ''item'' then Some (int_of_digits digits) else None),
      item_name = (if kind = ''item'' then lookup (str_int (int_of_digits digits)) else None),
      spell_id = (if kind = ''item'' then None else Some (int_of_digits digits)),
      source = [],
      tie_group_size = 1,
      tie_group_index = 1,
      tie_with_previous = False,
      ref_type = kind,
      ref_id = int_of_digits digits\<rparr>"


text \<open>
  The loop over \<^verbatim>\<open>REF_RE.finditer(section)\<close>, with its state \<^verbatim>\<open>seen\<close>, \<^verbatim>\<open>items\<close> and
  \<^verbatim>\<open>order\<close>. A match is the pair of its two groups.
\<close>

fun inline_loop ::
  "item_lookup \<Rightarrow> (string \<times> string) list \<Rightarrow> (string \<times> int) set \<Rightarrow> ranked_item list \<Rightarrow> nat
     \<Rightarrow> ranked_item list" where
  "inline_loop lookup [] seen items ord = items"
| "inline_loop lookup ((kind, digits) # matches) seen items ord =
     (let key = (lower kind, int_of_digits digits) in
      if key \<in> seen then inline_loop lookup matches seen items ord
      else inline_loop lookup matches (insert key seen)
             (items @ [inline_row lookup ord (lower kind) digits]) (ord + 1))"

definition extract_inline_refs :: "string \<Rightarrow> item_lookup \<Rightarrow> ranked_item list" where
  "extract_inline_refs section lookup = inline_loop lookup (findall ref_match section) {} [] 1"

subsection \<open>\<^verbatim>\<open>extract_by_slot\<close>\<close>

text \<open>The entries appended for one valid row: \<^verbatim>\<open>enumerate(item_ids, start=1)\<close>.\<close>

definition row_entries ::
  "item_lookup \<Rightarrow> nat \<Rightarrow> string \<Rightarrow> string \<Rightarrow> string list \<Rightarrow> ranked_item list" where
  "row_entries lookup row_order rank_text src item_ids =
     map (\<lambda>(tie_index, item).
            \<lparr>order = row_order,
             rank = rank_text,
             item_id = Some (int_of_digits item),
             item_name = lookup item,
             spell_id = None,
             source = src,
             tie_group_size = length item_ids,
             tie_group_index = tie_index,
             tie_with_previous = (tie_index > 1),
             ref_type = ''item'',
             ref_id = int_of_digits item\<rparr>)
         (zip [1..<Suc (length item_ids)] item_ids)"

text \<open>
  The body of the loop over \<^verbatim>\<open>TR_RE.finditer(table_body)\<close>; the state is
  \<^verbatim>\<open>(items, row_order)\<close> and every \<^verbatim>\<open>continue\<close> returns it unchanged.
\<close>

fun process_row ::
  "item_lookup \<Rightarrow> string \<Rightarrow> ranked_item list \<times> nat \<Rightarrow> ranked_item list \<times> nat" where
  "process_row lookup row (items, row_order) =
     (let cells = findall td_match row in
      if length cells < 2 then (items, row_order)
      else
        let item_ids = findall item_match (cells ! 1) in
        if item_ids = [] then (items, row_order)
        else
          let rank_text = clean_text (cells ! 0) in
          if rank_text = [] \<or> lower rank_text = ''rank'' then (items, row_order)
          else
            let src = (if length cells \<ge> 3 then clean_text (cells ! 2) else [])
            in (items @ row_entries lookup row_order rank_text src item_ids, row_order + 1))"

definition process_table ::
  "item_lookup \<Rightarrow> string \<Rightarrow> ranked_item list \<times> nat \<Rightarrow> ranked_item list \<times> nat" where
  "process_table lookup table_body st = fold (process_row lookup) (findall tr_match table_body) st"

text \<open>The loop over \<^verbatim>\<open>TABLE_RE.finditer(section)\<close>, from \<^verbatim>\<open>items = []\<close>, \<^verbatim>\<open>row_order = 1\<close>.\<close>

definition section_table_items :: "item_lookup \<Rightarrow> string \<Rightarrow> ranked_item list" where
  "section_table_items lookup section =
     fst (fold (process_table lookup) (findall table_match section) ([], 1))"

text \<open>The items of one classified section, with the fallback to the inline references.\<close>

definition section_items :: "string \<Rightarrow> item_lookup \<Rightarrow> string \<Rightarrow> ranked_item list" where
  "section_items guide_type lookup section =
     (let items = section_table_items lookup section in
      if items = [] \<and> guide_type = ''gems_enchants'' then extract_inline_refs section lookup
      else items)"

text \<open>\<^verbatim>\<open>markup[a:b]\<close> for \<^verbatim>\<open>0 <= a\<close> and \<^verbatim>\<open>0 <= b\<close>; empty when \<^verbatim>\<open>b <= a\<close>.\<close>

definition slice :: "'a list \<Rightarrow> nat \<Rightarrow> nat \<Rightarrow> 'a list" where
  "slice s a b = take (b - a) (drop a s)"

text \<open>
  The headers: the matches of \<^verbatim>\<open>H3_RE\<close> with their \<^verbatim>\<open>toc\<close> value, then those of
  \<^verbatim>\<open>H4_RE\<close> with their cleaned text, sorted by start (\<^verbatim>\<open>list.sort\<close> is stable, as
  \<open>sort_key\<close> is).
\<close>

definition headers_of :: "string \<Rightarrow> (nat \<times> nat \<times> string) list" where
  "headers_of markup =
     sort_key (\<lambda>(header_start, header_end, header_name). header_start)
       (finditer h3_match 0 markup
        @ map (\<lambda>(header_start, header_end, g). (header_start, header_end, clean_text g))
              (finditer h4_match 0 markup))"

definition slot_name_of :: "string \<Rightarrow> string \<Rightarrow> string" where
  "slot_name_of guide_type header_name =
     (if guide_type = ''gems_enchants'' then normalize_enhancement_bucket header_name
      else normalize_slot header_name)"

definition valid_slots_of :: "string \<Rightarrow> string list" where
  "valid_slots_of guide_type =
     (if guide_type = ''gems_enchants'' then VALID_ENHANCEMENT_BUCKETS else VALID_SLOTS)"

text \<open>
  \<^verbatim>\<open>markup[section_start:section_end]\<close>: the section of a header starts at the header's
  end and ends where the next header starts, or at the end of the markup.
\<close>

definition section_of :: "string \<Rightarrow> nat \<Rightarrow> (nat \<times> nat \<times> string) list \<Rightarrow> string" where
  "section_of markup header_end later =
     slice markup header_end
       (case later of [] \<Rightarrow> length markup | (next_start, _, _) # _ \<Rightarrow> next_start)"

text \<open>
  The loop over \<^verbatim>\<open>enumerate(headers)\<close>. A result is the pair of \<^verbatim>\<open>"slot"\<close> and
  \<^verbatim>\<open>"items"\<close>.
\<close>

fun sections_loop ::
  "string \<Rightarrow> item_lookup \<Rightarrow> string \<Rightarrow> (nat \<times> nat \<times> string) list
     \<Rightarrow> (string \<times> ranked_item list) list" where
  "sections_loop markup lookup guide_type [] = []"
| "sections_loop markup lookup guide_type ((header_start, header_end, header_name) # later) =
     (let slot_name = slot_name_of guide_type header_name in
      if slot_name \<notin> set (valid_slots_of guide_type)
      then sections_loop markup lookup guide_type later
      else
        let section = section_of markup header_end later;
            items = section_items guide_type lookup section
        in (if items \<noteq> [] then [(slot_name, items)] else [])
           @ sections_loop markup lookup guide_type later)"

definition extract_by_slot ::
  "string \<Rightarrow> item_lookup \<Rightarrow> string \<Rightarrow> (string \<times> ranked_item list) list" where
  "extract_by_slot markup lookup guide_type =
     sections_loop markup lookup guide_type (headers_of markup)"


subsection \<open>The classified sections, for stating properties\<close>

text \<open>
  The sections \<^verbatim>\<open>extract_by_slot\<close> keeps after the test \<^verbatim>\<open>slot_name not in valid_slots\<close>,
  in document order: the slot name of the header and the text of its section.
\<close>

fun classified ::
  "string \<Rightarrow> string \<Rightarrow> (nat \<times> nat \<times> string) list \<Rightarrow> (string \<times> string) list" where
  "classified markup guide_type [] = []"
| "classified markup guide_type ((header_start, header_end, header_name) # later) =
     (if slot_name_of guide_type header_name \<in> set (valid_slots_of guide_type)
      then [(slot_name_of guide_type header_name, section_of markup header_end later)]
      else [])
     @ classified markup guide_type later"

definition classified_sections :: "string \<Rightarrow> string \<Rightarrow> (string \<times> string) list" where
  "classified_sections markup guide_type = classified markup guide_type (headers_of markup)"

subsection \<open>The rows of a section, for stating properties\<close>

text \<open>
  The rows the nested loops visit, in order, and the tests a row passes before its
  entries are appended: at least two cells, an item reference in the second cell, and
  a cleaned first cell that is neither empty nor the word "rank".
\<close>

definition all_rows :: "string \<Rightarrow> string list" where
  "all_rows section = concat (map (findall tr_match) (findall table_match section))"

definition row_item_ids :: "string \<Rightarrow> string list" where
  "row_item_ids row = findall item_match (findall td_match row ! 1)"

definition row_valid :: "string \<Rightarrow> bool" where
  "row_valid row \<longleftrightarrow>
     2 \<le> length (findall td_match row)
     \<and> row_item_ids row \<noteq> []
     \<and> clean_text (findall td_match row ! 0) \<noteq> []
     \<and> lower (clean_text (findall td_match row ! 0)) \<noteq> ''rank''"

definition valid_rows :: "string \<Rightarrow> string list" where
  "valid_rows section = filter row_valid (all_rows section)"

definition row_output :: "item_lookup \<Rightarrow> nat \<Rightarrow> string \<Rightarrow> ranked_item list" where
  "row_output lookup row_order row =
     (let cells = findall td_match row in
      row_entries lookup row_order (clean_text (cells ! 0))
        (if length cells \<ge> 3 then clean_text (cells ! 2) else [])
        (row_item_ids row))"

fun numbered_entries :: "item_lookup \<Rightarrow> nat \<Rightarrow> string list \<Rightarrow> ranked_item list" where
  "numbered_entries lookup k [] = []"
| "numbered_entries lookup k (row # rows) =
     row_output lookup k row @ numbered_entries lookup (Suc k) rows"

text \<open>The identity of an entry, and the key of a match of \<^verbatim>\<open>REF_RE\<close>.\<close>

definition identity :: "ranked_item \<Rightarrow> string \<times> int" where
  "identity e = (ref_type e, ref_id e)"

definition ref_key :: "string \<times> string \<Rightarrow> string \<times> int" where
  "ref_key m = (lower (fst m), int_of_digits (snd m))"

section \<open>Markup locators\<close>

text \<open>
  \<^verbatim>\<open>pattern.search(s)\<close>: the first position, from the left, where the pattern matches.
\<close>

fun re_search :: "(string \<Rightarrow> 'g option) \<Rightarrow> string \<Rightarrow> 'g option" where
  "re_search m [] = m []"
| "re_search m (c # cs) = (case m (c # cs) of Some found \<Rightarrow> Some found | None \<Rightarrow> re_search m cs)"

text \<open>
  \<^verbatim>\<open>(?:\\.|[^\"\\])*\<close> under \<^verbatim>\<open>re.DOTALL\<close>: the body of a quoted JavaScript string. A
  backslash takes the next character with it, any other character but the quote
  stands alone; the two cases exclude each other, so the greedy star stops at the
  first quote that is not escaped (or at the end, or at a backslash that ends the text).
  The result is the body and the text after it.
\<close>

fun js_string_body :: "string \<Rightarrow> string \<times> string" where
  "js_string_body [] = ([], [])"
| "js_string_body [c] = (if c = CHR 0x22 \<or> c = CHR 0x5C then ([], [c]) else ([c], []))"
| "js_string_body (c # d # rest) =
     (if c = CHR 0x22 then ([], c # d # rest)
      else if c = CHR 0x5C then (case js_string_body rest of (body, after) \<Rightarrow> (c # d # body, after))
      else (case js_string_body (d # rest) of (body, after) \<Rightarrow> (c # body, after)))"

text \<open>The number of steps of the star: an escape counts once.\<close>

fun js_string_steps :: "string \<Rightarrow> nat" where
  "js_string_steps [] = 0"
| "js_string_steps [c] = (if c = CHR 0x22 \<or> c = CHR 0x5C then 0 else 1)"
| "js_string_steps (c # d # rest) =
     (if c = CHR 0x22 then 0
      else if c = CHR 0x5C then Suc (js_string_steps rest)
      else Suc (js_string_steps (d # rest)))"

text \<open>\<^verbatim>\<open>"body"\<close>: an opening quote, the body, a closing quote.\<close>

definition quoted_string :: "string \<Rightarrow> (string \<times> string) option" where
  "quoted_string s =
     (case s of
        [] \<Rightarrow> None
      | c # cs \<Rightarrow>
          if c = CHR 0x22 then
            (case js_string_body cs of
               (body, after) \<Rightarrow>
                 (case after of
                    [] \<Rightarrow> None
                  | q # rest \<Rightarrow> if q = CHR 0x22 then Some (body, rest) else None))
          else None)"

subsection \<open>\<^verbatim>\<open>extract_markup\<close> of scripts/extract\_wowhead\_items.py\<close>

text \<open>
  \<^verbatim>\<open>PRINT_HTML_RE = WH\.markup\.printHtml\(\s*(\"(?:\\.|[^\"\\])*\")\s*(?:,|\))\<close>; the
  group is the string literal with its quotes.
\<close>

definition items_print_html_match :: "string \<Rightarrow> string option" where
  "items_print_html_match s =
     (if startswith s ''WH.markup.printHtml('' then
        (case quoted_string (dropWhile is_space (drop 20 s)) of
           None \<Rightarrow> None
         | Some (body, rest) \<Rightarrow>
             (case dropWhile is_space rest of
                [] \<Rightarrow> None
              | c # _ \<Rightarrow>
                  if c = CHR '','' \<or> c = CHR '')''
                  then Some ([CHR 0x22] @ body @ [CHR 0x22]) else None))
      else None)"

datatype error = ValueError string | JSONDecodeError

text \<open>
  \<^verbatim>\<open>extract_markup\<close> raises \<^verbatim>\<open>ValueError\<close> when the pattern is not found and returns
  \<^verbatim>\<open>json.loads\<close> of the literal otherwise. \<^verbatim>\<open>json.loads\<close> is Python's library function
  and is a parameter here: it returns the decoded string or raises.
\<close>

definition extract_markup :: "(string \<Rightarrow> error + string) \<Rightarrow> string \<Rightarrow> error + string" where
  "extract_markup json_loads html_text =
     (case re_search items_print_html_match html_text of
        None \<Rightarrow> Inl (ValueError ''Could not find WH.markup.printHtml content'')
      | Some literal \<Rightarrow> json_loads literal)"

subsection \<open>\<^verbatim>\<open>extract_guide_markup\<close> of scripts/parse\_wowhead\_html.py\<close>

text \<open>\<^verbatim>\<open>s.replace(old, new)\<close> for an \<^verbatim>\<open>old\<close> of two characters, as all uses here have.\<close>

fun replace2 :: "char \<Rightarrow> char \<Rightarrow> string \<Rightarrow> string \<Rightarrow> string" where
  "replace2 a b new (c # d # rest) =
     (if c = a \<and> d = b then new @ replace2 a b new rest
      else c # replace2 a b new (d # rest))"
| "replace2 a b new s = s"

definition unescape_js_string :: "string \<Rightarrow> string" where
  "unescape_js_string v =
     replace2 (CHR 0x5C) (CHR 0x5C) [CHR 0x5C]
       (replace2 (CHR 0x5C) (CHR ''/'') ''/''
         (replace2 (CHR 0x5C) (CHR 0x22) [CHR 0x22]
           (replace2 (CHR 0x5C) (CHR ''t'') [CHR 0x09]
             (replace2 (CHR 0x5C) (CHR ''r'') [CHR 0x0D]
               (replace2 (CHR 0x5C) (CHR ''n'') [CHR 0x0A] v)))))"

text \<open>
  \<^verbatim>\<open>WH\.markup\.printHtml\(\s*"((?:[^"\\]|\\.)*)"\s*,\s*"guide-body"\<close>; the group is
  the body without the quotes.
\<close>

definition guide_markup_match :: "string \<Rightarrow> string option" where
  "guide_markup_match s =
     (if startswith s ''WH.markup.printHtml('' then
        (case quoted_string (dropWhile is_space (drop 20 s)) of
           None \<Rightarrow> None
         | Some (body, rest) \<Rightarrow>
             (case dropWhile is_space rest of
                [] \<Rightarrow> None
              | c # after_comma \<Rightarrow>
                  if c = CHR '','' \<and> startswith (dropWhile is_space after_comma) ''\"guide-body\"''
                  then Some body else None))
      else None)"

definition extract_guide_markup :: "string \<Rightarrow> string option" where
  "extract_guide_markup html_text =
     (case re_search guide_markup_match html_text of
        None \<Rightarrow> None
      | Some body \<Rightarrow> Some (unescape_js_string body))"

subsection \<open>\<^verbatim>\<open>extract_print_html_payload\<close> of scripts/extract\_wowhead\_guide\_markup.py\<close>

text \<open>
  \<^verbatim>\<open>PRINT_HTML_RE = WH\.markup\.printHtml\s*\(\s*\"((?:[^\"\\]|\\.)*)\"\s*\)\<close> and
  \<^verbatim>\<open>PRINT_HTML_FALLBACK_RE = WH\.markup\.printHtml\s*\(\s*\"((?:[^\"\\]|\\.){100,}?)\"\<close>.
  The lazy repetition of the fallback can only stop where a quote follows, and that is
  where the steps end; so it matches when the body has at least 100 steps.
\<close>

definition print_html_call_string :: "string \<Rightarrow> (string \<times> string) option" where
  "print_html_call_string s =
     (if startswith s ''WH.markup.printHtml'' then
        (case dropWhile is_space (drop 19 s) of
           [] \<Rightarrow> None
         | c # after_paren \<Rightarrow>
             if c = CHR ''('' then quoted_string (dropWhile is_space after_paren) else None)
      else None)"

definition payload_match :: "string \<Rightarrow> string option" where
  "payload_match s =
     (case print_html_call_string s of
        None \<Rightarrow> None
      | Some (body, rest) \<Rightarrow>
          (case dropWhile is_space rest of
             [] \<Rightarrow> None
           | c # _ \<Rightarrow> if c = CHR '')'' then Some body else None))"

definition payload_fallback_match :: "string \<Rightarrow> string option" where
  "payload_fallback_match s =
     (case print_html_call_string s of
        None \<Rightarrow> None
      | Some (body, rest) \<Rightarrow> if 100 \<le> js_string_steps body then Some body else None)"

definition unescape_payload :: "string \<Rightarrow> string" where
  "unescape_payload raw =
     replace2 (CHR 0x5C) (CHR 0x5C) [CHR 0x5C]
       (replace2 (CHR 0x5C) (CHR 0x22) [CHR 0x22]
         (replace2 (CHR 0x5C) (CHR ''t'') [CHR 0x09]
           (replace2 (CHR 0x5C) (CHR ''r'') [CHR 0x0D]
             (replace2 (CHR 0x5C) (CHR ''n'') [CHR 0x0A] raw))))"

definition extract_print_html_payload :: "string \<Rightarrow> string option" where
  "extract_print_html_payload html =
     (case re_search payload_match html of
        Some raw \<Rightarrow> Some (unescape_payload raw)
      | None \<Rightarrow>
          (case re_search payload_fallback_match html of
             Some raw \<Rightarrow> Some (unescape_payload raw)
           | None \<Rightarrow> None))"

subsection \<open>A call of \<^verbatim>\<open>printHtml\<close> with a quoted string as first argument\<close>

text \<open>
  The construct all three locators look for: \<^verbatim>\<open>WH.markup.printHtml\<close>, an opening
  parenthesis and a closed string literal, with optional white space between them.
\<close>

fun has_print_html_call :: "string \<Rightarrow> bool" where
  "has_print_html_call [] = False"
| "has_print_html_call (c # cs) =
     (print_html_call_string (c # cs) \<noteq> None \<or> has_print_html_call cs)"

section \<open>Numeric guide parser (scripts/parse\_wowhead\_html.py)\<close>

subsection \<open>Its regular expressions\<close>

text \<open>\<^verbatim>\<open>open[^>]*>(.*?)close\<close> under \<^verbatim>\<open>re.S | re.I\<close>, for \<^verbatim>\<open>tr\<close>, \<^verbatim>\<open>td\<close> and \<^verbatim>\<open>table\<close> in HTML.\<close>

definition match_html_block_ci :: "string \<Rightarrow> string \<Rightarrow> string \<Rightarrow> (string \<times> string) option" where
  "match_html_block_ci opening close s =
     (if startswith_ci s opening then
        (case dropWhile (\<lambda>c. c \<noteq> CHR ''>'') (drop (length opening) s) of
           [] \<Rightarrow> None
         | _ # body \<Rightarrow> lazy_until_ci close body)
      else None)"

definition html_tr_match :: "string \<Rightarrow> (string \<times> string) option" where
  "html_tr_match = match_html_block_ci ''<tr'' ''</tr>''"

definition html_td_match :: "string \<Rightarrow> (string \<times> string) option" where
  "html_td_match = match_html_block_ci ''<td'' ''</td>''"

text \<open>\<^verbatim>\<open><table[^>]*>.*?</table>\<close> has no group: \<^verbatim>\<open>findall\<close> gives the whole match.\<close>

definition html_table_match :: "string \<Rightarrow> (string \<times> string) option" where
  "html_table_match s =
     (case match_html_block_ci ''<table'' ''</table>'' s of
        None \<Rightarrow> None
      | Some (inner, rest) \<Rightarrow> Some (take (length s - length rest) s, rest))"

text \<open>\<^verbatim>\<open><noscript>(.*?)</noscript>\<close>\<close>

definition noscript_match :: "string \<Rightarrow> string option" where
  "noscript_match s =
     (if startswith_ci s ''<noscript>''
      then map_option fst (lazy_until_ci ''</noscript>'' (drop 10 s)) else None)"

text \<open>
  The headings: \<^verbatim>\<open>\[h[2-6][^\]]*\](.*?)\[/h[2-6]\]\<close> in the markup and
  \<^verbatim>\<open><h[2-6][^>]*>(.*?)</h[2-6]>\<close> in HTML. The closing tag may carry another level
  than the opening one.
\<close>

definition heading_close_here :: "char \<Rightarrow> char \<Rightarrow> string \<Rightarrow> bool" where
  "heading_close_here lb rb s \<longleftrightarrow>
     (case s of
        a # b # c # d # e # _ \<Rightarrow>
          a = lb \<and> b = CHR ''/'' \<and> lower_char c = CHR ''h'' \<and> d \<in> set ''23456'' \<and> e = rb
      | _ \<Rightarrow> False)"

fun lazy_until_heading_close :: "char \<Rightarrow> char \<Rightarrow> string \<Rightarrow> (string \<times> string) option" where
  "lazy_until_heading_close lb rb [] = None"
| "lazy_until_heading_close lb rb (c # cs) =
     (if heading_close_here lb rb (c # cs) then Some ([], drop 5 (c # cs))
      else (case lazy_until_heading_close lb rb cs of
              None \<Rightarrow> None
            | Some (g, rest) \<Rightarrow> Some (c # g, rest)))"

definition heading_match :: "char \<Rightarrow> char \<Rightarrow> string \<Rightarrow> (string \<times> string) option" where
  "heading_match lb rb s =
     (case s of
        a # h # d # attrs \<Rightarrow>
          if a = lb \<and> lower_char h = CHR ''h'' \<and> d \<in> set ''23456'' then
            (case dropWhile (\<lambda>c. c \<noteq> rb) attrs of
               [] \<Rightarrow> None
             | _ # body \<Rightarrow> lazy_until_heading_close lb rb body)
          else None
      | _ \<Rightarrow> None)"

definition markup_heading_match :: "string \<Rightarrow> (string \<times> string) option" where
  "markup_heading_match = heading_match (CHR ''['') (CHR '']'')"

definition html_heading_match :: "string \<Rightarrow> (string \<times> string) option" where
  "html_heading_match = heading_match (CHR ''<'') (CHR ''>'')"

text \<open>\<^verbatim>\<open>/tbc/item=(\d+)\<close> and \<^verbatim>\<open>\[item=\s*(\d+)\s*\]\<close>, both under \<^verbatim>\<open>re.I\<close>.\<close>

definition tbc_item_match :: "string \<Rightarrow> (string \<times> string) option" where
  "tbc_item_match s =
     (if startswith_ci s ''/tbc/item='' \<and> takeWhile is_digit (drop 10 s) \<noteq> []
      then Some (takeWhile is_digit (drop 10 s), dropWhile is_digit (drop 10 s))
      else None)"

definition item_spaced_match :: "string \<Rightarrow> (string \<times> string) option" where
  "item_spaced_match s =
     (if startswith_ci s ''[item='' then
        (let after_ws = dropWhile is_space (drop 6 s);
             digits = takeWhile is_digit after_ws
         in if digits = [] then None
            else (case dropWhile is_space (dropWhile is_digit after_ws) of
                    [] \<Rightarrow> None
                  | c # rest \<Rightarrow> if c = CHR '']'' then Some (digits, rest) else None))
      else None)"

text \<open>
  \<^verbatim>\<open>clean_text\<close> of this script: \<^verbatim>\<open>html.unescape\<close>, then every \<^verbatim>\<open><[^>]+>\<close> replaced by
  a space, white space collapsed, and \<^verbatim>\<open>strip\<close>. \<^verbatim>\<open>html.unescape\<close> is Python's library
  function and is a parameter.
\<close>

function angle_tags_to_space :: "string \<Rightarrow> string" where
  "angle_tags_to_space [] = []"
| "angle_tags_to_space (c # cs) =
     (if c = CHR ''<'' \<and> takeWhile (\<lambda>c. c \<noteq> CHR ''>'') cs \<noteq> []
         \<and> dropWhile (\<lambda>c. c \<noteq> CHR ''>'') cs \<noteq> []
      then CHR '' '' # angle_tags_to_space (tl (dropWhile (\<lambda>c. c \<noteq> CHR ''>'') cs))
      else c # angle_tags_to_space cs)"
  by pat_completeness auto
termination
proof (relation "measure length")
  fix c :: char and cs :: string
  have "length (dropWhile (\<lambda>c. c \<noteq> CHR ''>'') cs) \<le> length cs"
    by (rule length_dropWhile_le)
  then have "length (tl (dropWhile (\<lambda>c. c \<noteq> CHR ''>'') cs)) \<le> length cs"
    by simp
  then show "(tl (dropWhile (\<lambda>c. c \<noteq> CHR ''>'') cs), c # cs) \<in> measure length"
    by simp
qed auto

definition html_clean_text :: "(string \<Rightarrow> string) \<Rightarrow> string \<Rightarrow> string" where
  "html_clean_text html_unescape v = strip (collapse_ws (angle_tags_to_space (html_unescape v)))"

subsection \<open>\<^verbatim>\<open>parse_ranked_items_from_table\<close> and \<^verbatim>\<open>parse_linked_item_ids\<close>\<close>

definition table_row_step :: "string \<Rightarrow> int list \<Rightarrow> int list" where
  "table_row_step row ranked =
     (let cells = findall html_td_match row;
          cells = (if cells = [] then findall td_match row else cells)
      in if length cells < 2 then ranked
         else
           let item_cell = cells ! 1;
               item_ids = map int_of_digits (findall tbc_item_match item_cell);
               item_ids = (if item_ids = [] then map int_of_digits (findall item_spaced_match item_cell)
                           else item_ids)
           in append_new ranked item_ids)"

definition parse_ranked_items_from_table :: "string \<Rightarrow> int list" where
  "parse_ranked_items_from_table table_html =
     (let rows = findall html_tr_match table_html;
          rows = (if rows = [] then findall tr_match table_html else rows)
      in fold table_row_step rows [])"

definition parse_linked_item_ids :: "string \<Rightarrow> int list" where
  "parse_linked_item_ids section_html =
     (let item_ids = map int_of_digits (findall tbc_item_match section_html);
          item_ids = (if item_ids = [] then map int_of_digits (findall item_spaced_match section_html)
                      else item_ids)
      in append_new [] item_ids)"

subsection \<open>\<^verbatim>\<open>parse_guide_slots\<close>\<close>

text \<open>
  The list \<^verbatim>\<open>ranked\<close> of one section. \<open>from_markup\<close> is the test \<^verbatim>\<open>if markup:\<close>: the
  section comes from the embedded markup, or else from the \<^verbatim>\<open>noscript\<close> HTML.
\<close>

definition markup_table_step :: "string \<Rightarrow> int list \<Rightarrow> int list" where
  "markup_table_step table_inner ranked =
     (let table_markup = ''[table]'' @ table_inner @ ''[/table]'';
          parsed = parse_ranked_items_from_table table_markup;
          ranked = append_new ranked parsed
      in if parsed = []
         then append_new ranked (map int_of_digits (findall item_match table_markup))
         else ranked)"

definition html_table_step :: "string \<Rightarrow> int list \<Rightarrow> int list" where
  "html_table_step table_html ranked = append_new ranked (parse_ranked_items_from_table table_html)"

definition section_ranked :: "bool \<Rightarrow> string \<Rightarrow> int list" where
  "section_ranked from_markup section_html =
     (let ranked = (if from_markup
                    then fold markup_table_step (findall table_match section_html) []
                    else fold html_table_step (findall html_table_match section_html) [])
      in if ranked = [] then parse_linked_item_ids section_html else ranked)"

text \<open>
  The sections in document order, each as its cleaned heading and its text
  \<^verbatim>\<open>source_text[start:end]\<close>, from the end of its heading to the start of the next one.
\<close>

fun guide_sections ::
  "(string \<Rightarrow> string) \<Rightarrow> string \<Rightarrow> (nat \<times> nat \<times> string) list \<Rightarrow> (string \<times> string) list" where
  "guide_sections html_unescape source_text [] = []"
| "guide_sections html_unescape source_text ((match_start, match_end, g) # later) =
     (html_clean_text html_unescape g, section_of source_text match_end later)
       # guide_sections html_unescape source_text later"

text \<open>\<^verbatim>\<open>for slot_id in target_slots: slot_to_items[slot_id] = ranked\<close>\<close>

definition assign_slots :: "int list \<Rightarrow> int list \<Rightarrow> slot_map \<Rightarrow> slot_map" where
  "assign_slots target_slots ranked slot_to_items =
     fold (\<lambda>slot_id m. m(slot_id \<mapsto> ranked)) target_slots slot_to_items"

text \<open>The rest of the loop body, with both \<^verbatim>\<open>continue\<close>s, over the sections.\<close>

fun slots_loop :: "bool \<Rightarrow> (string \<times> string) list \<Rightarrow> slot_map \<Rightarrow> slot_map" where
  "slots_loop from_markup [] slot_to_items = slot_to_items"
| "slots_loop from_markup ((heading, section_html) # later) slot_to_items =
     (let target_slots = section_slot_ids heading section_html in
      if target_slots = [] then slots_loop from_markup later slot_to_items
      else
        let ranked = section_ranked from_markup section_html in
        if ranked = [] then slots_loop from_markup later slot_to_items
        else slots_loop from_markup later (assign_slots target_slots ranked slot_to_items))"

text \<open>
  The source the sections are read from: the embedded markup when it is found and not
  empty, else the \<^verbatim>\<open>noscript\<close> block when there is one and it is not empty.
\<close>

definition extract_noscript :: "string \<Rightarrow> string option" where
  "extract_noscript html_text = re_search noscript_match html_text"

definition guide_source :: "string \<Rightarrow> (bool \<times> string) option" where
  "guide_source html_text =
     (case extract_guide_markup html_text of
        Some (c # cs) \<Rightarrow> Some (True, c # cs)
      | _ \<Rightarrow>
          (case extract_noscript html_text of
             Some (c # cs) \<Rightarrow> Some (False, c # cs)
           | _ \<Rightarrow> None))"

definition source_sections :: "(string \<Rightarrow> string) \<Rightarrow> bool \<Rightarrow> string \<Rightarrow> (string \<times> string) list" where
  "source_sections html_unescape from_markup source_text =
     guide_sections html_unescape source_text
       (finditer (if from_markup then markup_heading_match else html_heading_match) 0 source_text)"

text \<open>
  \<^verbatim>\<open>parse_guide_slots\<close>, from the text of the file (\<^verbatim>\<open>guide_path.read_text(...)\<close>).
\<close>

definition parse_guide_slots :: "(string \<Rightarrow> string) \<Rightarrow> string \<Rightarrow> slot_map" where
  "parse_guide_slots html_unescape html_text =
     (case guide_source html_text of
        None \<Rightarrow> Map.empty
      | Some (from_markup, source_text) \<Rightarrow>
          slots_loop from_markup (source_sections html_unescape from_markup source_text) Map.empty)"

text \<open>
  A section that can write the entry of a slot: the slot is among its targets and its
  ranked list is not empty.
\<close>

definition writes_slot :: "bool \<Rightarrow> int \<Rightarrow> string \<times> string \<Rightarrow> bool" where
  "writes_slot from_markup slot_id sec \<longleftrightarrow>
     slot_id \<in> set (section_slot_ids (fst sec) (snd sec))
     \<and> section_ranked from_markup (snd sec) \<noteq> []"

section \<open>Concrete inputs\<close>

text \<open>The inputs at which the theorems below are instantiated and the code is evaluated.\<close>

definition example_phases :: "nat \<Rightarrow> slot_map" where
  "example_phases phase =
     (if phase = 1 then [1 \<mapsto> [10, 11]]
      else if phase = 2 then [1 \<mapsto> [20, 10]]
      else if phase = 3 then [1 \<mapsto> [30, 11], 2 \<mapsto> [5]]
      else Map.empty)"

definition example_tie_section :: string where
  "example_tie_section =
     ''[table][tr][td]Rank[/td][td]Item[/td][/tr][tr][td]Best[/td][td][item=5] or [item=6][/td][/tr][/table]''"

definition duplicate_item_markup :: string where
  "duplicate_item_markup =
     ''[h4]Head[/h4][table][tr][td]Best[/td][td][item=5][/td][/tr][tr][td]Good[/td][td][item=5][/td][/tr][/table]''"

definition example_inline_section :: string where
  "example_inline_section = '' Use [spell=7] or [item=5], never [Spell=07].''"

definition page_without_markup :: string where
  "page_without_markup = ''<html><body><script>WH.markup.printHtml(guideBody);</script></body></html>''"

definition page_with_empty_last_section :: string where
  \<open>page_with_empty_last_section =
     ''<script>WH.markup.printHtml("[h2]Head[/h2][item=5][h3]Best Head Enchant[/h3]no items", "guide-body");</script>''\<close>

definition page_with_two_head_sections :: string where
  \<open>page_with_two_head_sections =
     ''<script>WH.markup.printHtml("[h2]Head[/h2][item=5][item=6][h3]Best Head Enchant[/h3][item=7][h2]Rings[/h2][item=9]", "guide-body");</script>''\<close>

definition example_store :: store where
  "example_store =
     \<lparr>dict_objs = [2 \<mapsto> [1 \<mapsto> 4], 3 \<mapsto> [1 \<mapsto> 5, 11 \<mapsto> 6, 12 \<mapsto> 6]],
      list_objs = [4 \<mapsto> [10], 5 \<mapsto> [20, 10], 6 \<mapsto> [7]],
      next_addr = 7\<rparr>"

definition example_tie_markup :: string where
  "example_tie_markup = ''[h3 toc=\"Body\"]Armor[/h3][h4]Hands[/h4]'' @ example_tie_section"

definition example_inline_markup :: string where
  "example_inline_markup = ''[h4]Head[/h4]'' @ example_inline_section"

definition page_with_noscript_only :: string where
  \<open>page_with_noscript_only =
     ''<html><body><noscript><h2>Head</h2><a href="/tbc/item=5">Helm</a></noscript></body></html>''\<close>

section \<open>Facts about the append loop and the merge\<close>

lemma append_new_skip_added: "append_new acc xs = acc @ skip_added acc xs"
  by (induction xs arbitrary: acc) auto

lemma set_skip_added: "set (skip_added acc xs) = set xs - set acc"
  by (induction xs arbitrary: acc) auto

lemma distinct_skip_added: "distinct (skip_added acc xs)"
  by (induction xs arbitrary: acc) (auto simp: set_skip_added)

lemma merge_ordered_spec:
  "merge_ordered A B s = spec_merge_list (slot_get B s) (slot_get A s)"
  by (simp add: merge_ordered_def spec_merge_list_def append_new_skip_added Let_def)

lemma distinct_spec_merge_list: "distinct (spec_merge_list xs ys)"
  by (auto simp: spec_merge_list_def Let_def distinct_skip_added set_skip_added)

lemma set_spec_merge_list: "set (spec_merge_list xs ys) = set xs \<union> set ys"
  by (auto simp: spec_merge_list_def Let_def set_skip_added)

lemma slot_get_merge:
  "slot_get (merge_slot_maps A B) s = merge_ordered A B s"
  by (auto simp: slot_get_def merge_slot_maps_def merge_ordered_def Let_def
           split: option.splits)

lemma slot_get_merge_spec:
  "slot_get (merge_slot_maps A B) s = spec_merge_list (slot_get B s) (slot_get A s)"
  by (simp add: slot_get_merge merge_ordered_spec)

text \<open>Only the set of the items already added matters.\<close>

lemma skip_added_cong_set: "set A = set B \<Longrightarrow> skip_added A xs = skip_added B xs"
proof (induction xs arbitrary: A B)
  case Nil
  then show ?case by simp
next
  case (Cons x xs)
  have "set (A @ [x]) = set (B @ [x])" using Cons.prems by simp
  then have "skip_added (A @ [x]) xs = skip_added (B @ [x]) xs" by (rule Cons.IH)
  moreover have "skip_added A xs = skip_added B xs" using Cons.prems by (rule Cons.IH)
  ultimately show ?case using Cons.prems by simp
qed

lemma skip_added_skip_added: "skip_added A (skip_added B ys) = skip_added (A @ B) ys"
proof (induction ys arbitrary: A B)
  case Nil
  then show ?case by simp
next
  case (Cons x ys)
  show ?case
  proof (cases "x \<in> set B")
    case True
    then show ?thesis by (simp add: Cons.IH)
  next
    case xB: False
    show ?thesis
    proof (cases "x \<in> set A")
      case True
      have "skip_added (A @ B @ [x]) ys = skip_added (A @ B) ys"
        by (rule skip_added_cong_set) (use True in auto)
      moreover have "skip_added A (skip_added (B @ [x]) ys) = skip_added (A @ B @ [x]) ys"
        by (rule Cons.IH)
      ultimately show ?thesis using True xB by simp
    next
      case False
      have "skip_added ((A @ [x]) @ B @ [x]) ys = skip_added (A @ B @ [x]) ys"
        by (rule skip_added_cong_set) auto
      moreover have "skip_added (A @ [x]) (skip_added (B @ [x]) ys)
                   = skip_added ((A @ [x]) @ B @ [x]) ys"
        by (rule Cons.IH)
      ultimately show ?thesis using False xB by simp
    qed
  qed
qed

lemma skip_added_append:
  "skip_added acc (xs @ ys) = skip_added acc xs @ skip_added (acc @ skip_added acc xs) ys"
proof (induction xs arbitrary: acc)
  case Nil
  then show ?case by simp
next
  case (Cons x xs)
  show ?case
  proof (cases "x \<in> set acc")
    case True
    then show ?thesis by (simp add: Cons.IH)
  next
    case False
    have "skip_added (acc @ [x]) (xs @ ys)
        = skip_added (acc @ [x]) xs @ skip_added ((acc @ [x]) @ skip_added (acc @ [x]) xs) ys"
      by (rule Cons.IH)
    then show ?thesis using False by simp
  qed
qed

lemma spec_merge_list_concat: "spec_merge_list c p = skip_added [] (c @ p)"
  by (simp add: spec_merge_list_def Let_def skip_added_append)

lemma spec_merge_list_dedup_prior:
  "spec_merge_list c (skip_added [] q) = skip_added [] (c @ q)"
  by (simp add: spec_merge_list_def Let_def skip_added_append skip_added_skip_added)

lemma spec_merge_list_Nil_iff: "spec_merge_list xs ys = [] \<longleftrightarrow> xs = [] \<and> ys = []"
  using set_spec_merge_list [of xs ys] by (metis Un_empty set_empty)

subsection \<open>The phase loop\<close>

lemma slot_get_empty_dom: "dom m = {} \<Longrightarrow> slot_get m s = []"
  by (simp add: slot_get_def)

lemma slot_get_Map_empty [simp]: "slot_get Map.empty s = []"
  by (simp add: slot_get_def)

lemma phases_inv_init: "phases_inv parsed 0 initial_profile_state"
  by (simp add: phases_inv_def initial_profile_state_def)

lemma phases_inv_step:
  assumes "phases_inv parsed n st"
  shows "phases_inv parsed (Suc n) (phase_step parsed (Suc n) st)"
proof (cases n)
  case 0
  show ?thesis
  proof (cases "dom (parsed 1) = {}")
    case True
    then show ?thesis using assms 0
      by (auto simp: phases_inv_def phase_step_def phase_items_def slot_get_empty_dom Let_def
               dest: le_antisym)
  next
    case False
    then show ?thesis using assms 0
      by (auto simp: phases_inv_def phase_step_def phase_items_def Let_def dest: le_antisym)
  qed
next
  case (Suc m)
  let ?merged = "merge_slot_maps (prev_slot_map st) (parsed (Suc n))"
  have prev: "\<And>s. slot_get (prev_slot_map st) s = items_upto parsed s n"
    and old: "\<And>s k. 1 \<le> k \<Longrightarrow> k \<le> n \<Longrightarrow> phase_items st k s = items_upto parsed s k"
    and fresh: "\<And>k. n < k \<Longrightarrow> phase_slots st k = None"
    using assms by (auto simp: phases_inv_def)
  have merged: "\<And>s. slot_get ?merged s = items_upto parsed s (Suc n)"
    by (simp add: slot_get_merge_spec prev Suc)
  show ?thesis
  proof (cases "dom ?merged = {}")
    case True
    have step: "phase_step parsed (Suc n) st = st"
      using True Suc by (simp add: phase_step_def Let_def)
    have empty: "\<And>s. items_upto parsed s (Suc n) = []"
      using merged True by (metis slot_get_empty_dom)
    have prev_empty: "\<And>s. items_upto parsed s n = []"
    proof -
      fix s
      have "spec_merge_list (slot_get (parsed (Suc n)) s) (items_upto parsed s n) = []"
        using empty [of s] Suc by simp
      then show "items_upto parsed s n = []" by (simp add: spec_merge_list_Nil_iff)
    qed
    have new: "\<And>s. phase_items st (Suc n) s = []"
      by (simp add: phase_items_def fresh)
    show ?thesis
      unfolding phases_inv_def step
    proof (intro conjI allI impI)
      fix s show "slot_get (prev_slot_map st) s = items_upto parsed s (Suc n)"
        by (simp add: prev prev_empty empty)
    next
      fix s k assume "1 \<le> k \<and> k \<le> Suc n"
      then show "phase_items st k s = items_upto parsed s k"
        by (cases "k = Suc n") (auto simp: new empty old)
    next
      fix k assume "Suc n < k"
      then show "phase_slots st k = None" by (simp add: fresh)
    qed
  next
    case False
    have step: "phase_step parsed (Suc n) st =
        st\<lparr>phase_slots := (phase_slots st)(Suc n \<mapsto> ?merged), prev_slot_map := ?merged\<rparr>"
      using False Suc by (simp add: phase_step_def Let_def)
    show ?thesis
      unfolding phases_inv_def step
    proof (intro conjI allI impI)
      fix s
      show "slot_get (prev_slot_map (st\<lparr>phase_slots := (phase_slots st)(Suc n \<mapsto> ?merged),
                prev_slot_map := ?merged\<rparr>)) s = items_upto parsed s (Suc n)"
        by (simp add: merged)
    next
      fix s k assume k: "1 \<le> k \<and> k \<le> Suc n"
      show "phase_items (st\<lparr>phase_slots := (phase_slots st)(Suc n \<mapsto> ?merged),
                prev_slot_map := ?merged\<rparr>) k s = items_upto parsed s k"
      proof (cases "k = Suc n")
        case True
        then show ?thesis by (simp add: phase_items_def merged)
      next
        case False
        then have "phase_items st k s = items_upto parsed s k" using k by (intro old) auto
        then show ?thesis using False by (simp add: phase_items_def)
      qed
    next
      fix k assume "Suc n < k"
      then show "phase_slots (st\<lparr>phase_slots := (phase_slots st)(Suc n \<mapsto> ?merged),
                prev_slot_map := ?merged\<rparr>) k = None"
        by (simp add: fresh)
    qed
  qed
qed

lemma phases_inv_fold: "phases_inv parsed n (fold (phase_step parsed) [1..<Suc n] initial_profile_state)"
proof (induction n)
  case 0
  then show ?case by (simp add: phases_inv_init)
next
  case (Suc n)
  have "[1..<Suc (Suc n)] = [1..<Suc n] @ [Suc n]" by simp
  then show ?case using phases_inv_step [OF Suc] by (simp del: upt_Suc)
qed

lemma phases_inv_merge_phases: "phases_inv parsed 5 (merge_phases parsed)"
proof -
  have "(6::nat) = Suc 5" by simp
  then show ?thesis unfolding merge_phases_def using phases_inv_fold [of parsed 5] by metis
qed

lemma items_upto_closed:
  "items_upto parsed s (Suc (Suc n)) =
     skip_added [] (concat (map (\<lambda>j. slot_get (parsed j) s) (rev [1..<Suc (Suc (Suc n))])))"
proof (induction n)
  case 0
  then show ?case by (simp add: spec_merge_list_concat)
next
  case (Suc n)
  have "items_upto parsed s (Suc (Suc (Suc n))) =
      spec_merge_list (slot_get (parsed (Suc (Suc (Suc n)))) s) (items_upto parsed s (Suc (Suc n)))"
    by simp
  also have "\<dots> = skip_added [] (slot_get (parsed (Suc (Suc (Suc n)))) s @
       concat (map (\<lambda>j. slot_get (parsed j) s) (rev [1..<Suc (Suc (Suc n))])))"
    unfolding Suc by (rule spec_merge_list_dedup_prior)
  finally show ?case by simp
qed

lemma set_items_upto:
  "set (items_upto parsed s n) = (\<Union>j\<in>{1..n}. set (slot_get (parsed j) s))"
proof (induction n rule: items_upto.induct)
  case (1 parsed s)
  then show ?case by simp
next
  case (2 parsed s)
  then show ?case by simp
next
  case (3 parsed s n)
  have "{1..Suc (Suc n)} = insert (Suc (Suc n)) {1..Suc n}" by auto
  then show ?case using 3 by (simp add: set_spec_merge_list)
qed

section \<open>Facts about the row loop of \<^verbatim>\<open>extract_by_slot\<close>\<close>

lemma length_row_entries [simp]: "length (row_entries lookup k r s ids) = length ids"
  by (simp add: row_entries_def del: upt_Suc)

lemma nth_row_entries:
  assumes "i < length ids"
  shows "row_entries lookup k r s ids ! i =
     \<lparr>order = k, rank = r, item_id = Some (int_of_digits (ids ! i)), item_name = lookup (ids ! i),
      spell_id = None, source = s, tie_group_size = length ids, tie_group_index = Suc i,
      tie_with_previous = (0 < i), ref_type = ''item'', ref_id = int_of_digits (ids ! i)\<rparr>"
proof -
  have "zip [1..<Suc (length ids)] ids ! i = (Suc i, ids ! i)"
    using assms by (simp add: nth_zip del: upt_Suc)
  then show ?thesis using assms by (simp add: row_entries_def del: upt_Suc)
qed

lemma order_row_entries: "e \<in> set (row_entries lookup k r s ids) \<Longrightarrow> order e = k"
  by (auto simp: row_entries_def)

lemma order_row_output: "e \<in> set (row_output lookup k row) \<Longrightarrow> order e = k"
  by (auto simp: row_output_def Let_def dest: order_row_entries)

lemma length_row_output [simp]: "length (row_output lookup k row) = length (row_item_ids row)"
  by (simp add: row_output_def Let_def)

lemma process_row_valid:
  "process_row lookup row (items, k) =
     (if row_valid row then (items @ row_output lookup k row, Suc k) else (items, k))"
  by (auto simp: row_valid_def row_output_def row_item_ids_def Let_def)

declare process_row.simps [simp del]

lemma fold_process_row:
  "fold (process_row lookup) rows (items, k) =
     (items @ numbered_entries lookup k (filter row_valid rows), k + length (filter row_valid rows))"
proof (induction rows arbitrary: items k)
  case Nil
  then show ?case by simp
next
  case (Cons row rows)
  show ?case
  proof (cases "row_valid row")
    case True
    then show ?thesis by (simp add: process_row_valid Cons.IH)
  next
    case False
    then show ?thesis by (simp add: process_row_valid Cons.IH)
  qed
qed

lemma numbered_entries_append:
  "numbered_entries lookup k (xs @ ys) =
     numbered_entries lookup k xs @ numbered_entries lookup (k + length xs) ys"
  by (induction xs arbitrary: k) auto

lemma fold_process_table:
  "fold (process_table lookup) tables (items, k) =
     (items @ numbered_entries lookup k (filter row_valid (concat (map (findall tr_match) tables))),
      k + length (filter row_valid (concat (map (findall tr_match) tables))))"
proof (induction tables arbitrary: items k)
  case Nil
  then show ?case by simp
next
  case (Cons t tables)
  have step: "process_table lookup t (items, k) =
      (items @ numbered_entries lookup k (filter row_valid (findall tr_match t)),
       k + length (filter row_valid (findall tr_match t)))"
    by (simp add: process_table_def fold_process_row)
  show ?case
    by (simp add: step Cons.IH numbered_entries_append add.assoc)
qed

lemma section_table_items_numbered:
  "section_table_items lookup section = numbered_entries lookup 1 (valid_rows section)"
  by (simp add: section_table_items_def fold_process_table valid_rows_def all_rows_def)

lemma order_numbered_entries_ge:
  "e \<in> set (numbered_entries lookup k rows) \<Longrightarrow> k \<le> order e"
proof (induction rows arbitrary: k)
  case Nil
  then show ?case by simp
next
  case (Cons row rows)
  from Cons.prems
  have "e \<in> set (row_output lookup k row) \<or> e \<in> set (numbered_entries lookup (Suc k) rows)"
    by simp
  then show ?case
  proof
    assume "e \<in> set (row_output lookup k row)"
    then show ?thesis by (simp add: order_row_output)
  next
    assume "e \<in> set (numbered_entries lookup (Suc k) rows)"
    then have "Suc k \<le> order e" by (rule Cons.IH)
    then show ?thesis by simp
  qed
qed

lemma filter_order_numbered_entries:
  "j < length rows \<Longrightarrow>
     filter (\<lambda>e. order e = k + j) (numbered_entries lookup k rows)
       = row_output lookup (k + j) (rows ! j)"
proof (induction rows arbitrary: k j)
  case Nil
  then show ?case by simp
next
  case (Cons row rows)
  show ?case
  proof (cases j)
    case 0
    have here: "filter (\<lambda>e. order e = k) (row_output lookup k row) = row_output lookup k row"
      by (rule filter_True) (simp add: order_row_output)
    have later: "filter (\<lambda>e. order e = k) (numbered_entries lookup (Suc k) rows) = []"
    proof (rule filter_False, rule ballI)
      fix e assume "e \<in> set (numbered_entries lookup (Suc k) rows)"
      then have "Suc k \<le> order e" by (rule order_numbered_entries_ge)
      then show "\<not> order e = k" by simp
    qed
    show ?thesis using 0 here later by simp
  next
    case (Suc i)
    then have i: "i < length rows" using Cons.prems by simp
    have here: "filter (\<lambda>e. order e = k + j) (row_output lookup k row) = []"
    proof (rule filter_False, rule ballI)
      fix e assume "e \<in> set (row_output lookup k row)"
      then have "order e = k" by (rule order_row_output)
      then show "\<not> order e = k + j" using Suc by simp
    qed
    have "filter (\<lambda>e. order e = Suc k + i) (numbered_entries lookup (Suc k) rows)
        = row_output lookup (Suc k + i) (rows ! i)"
      using i by (rule Cons.IH)
    then show ?thesis using Suc here by simp
  qed
qed

lemma numbered_entries_Nil_iff:
  "numbered_entries lookup k rows = [] \<longleftrightarrow> (\<forall>row \<in> set rows. row_item_ids row = [])"
proof (induction rows arbitrary: k)
  case Nil
  then show ?case by simp
next
  case (Cons row rows)
  have "row_output lookup k row = [] \<longleftrightarrow> row_item_ids row = []"
    using length_row_output [of lookup k row] by (metis length_0_conv)
  then show ?case using Cons.IH by simp
qed

lemma section_table_items_Nil_iff:
  "section_table_items lookup section = [] \<longleftrightarrow> valid_rows section = []"
proof -
  have "\<forall>row \<in> set (valid_rows section). row_item_ids row \<noteq> []"
    by (simp add: valid_rows_def row_valid_def)
  then show ?thesis
    unfolding section_table_items_numbered numbered_entries_Nil_iff
    by (metis all_not_in_conv set_empty)
qed

subsection \<open>The inline references\<close>

lemma inline_loop_items:
  "inline_loop lookup ms seen items ord = items @ inline_loop lookup ms seen [] ord"
proof (induction ms arbitrary: seen items ord)
  case Nil
  then show ?case by simp
next
  case (Cons m ms)
  obtain kind digits where m: "m = (kind, digits)" by (cases m)
  let ?key = "(lower kind, int_of_digits digits)"
  let ?row = "inline_row lookup ord (lower kind) digits"
  show ?case
  proof (cases "?key \<in> seen")
    case True
    then show ?thesis using Cons.IH [of seen items ord] by (simp add: m)
  next
    case False
    have "inline_loop lookup ms (insert ?key seen) (items @ [?row]) (ord + 1)
        = (items @ [?row]) @ inline_loop lookup ms (insert ?key seen) [] (ord + 1)"
      by (rule Cons.IH)
    moreover have "inline_loop lookup ms (insert ?key seen) ([] @ [?row]) (ord + 1)
        = ([] @ [?row]) @ inline_loop lookup ms (insert ?key seen) [] (ord + 1)"
      by (rule Cons.IH)
    ultimately show ?thesis using False by (simp add: m)
  qed
qed

lemma identity_inline_row [simp]:
  "identity (inline_row lookup ord kind digits) = (kind, int_of_digits digits)"
  by (simp add: identity_def inline_row_def)

lemma order_inline_row [simp]: "order (inline_row lookup ord kind digits) = ord"
  by (simp add: inline_row_def)

lemma rank_inline_row [simp]:
  "rank (inline_row lookup ord kind digits) = (if ord = 1 then ''Best'' else ''Alternative'')"
  by (simp add: inline_row_def)

lemma inline_loop_step:
  "inline_loop lookup ((kind, digits) # ms) (set acc) [] ord =
     (if ref_key (kind, digits) \<in> set acc then inline_loop lookup ms (set acc) [] ord
      else inline_row lookup ord (lower kind) digits
             # inline_loop lookup ms (set (acc @ [ref_key (kind, digits)])) [] (Suc ord))"
proof -
  have "inline_loop lookup ms (insert (ref_key (kind, digits)) (set acc))
          [inline_row lookup ord (lower kind) digits] (Suc ord)
      = [inline_row lookup ord (lower kind) digits]
          @ inline_loop lookup ms (insert (ref_key (kind, digits)) (set acc)) [] (Suc ord)"
    by (rule inline_loop_items)
  then show ?thesis by (simp add: ref_key_def)
qed

declare inline_loop.simps(2) [simp del]

lemma inline_loop_identities:
  "map identity (inline_loop lookup ms (set acc) [] ord) = skip_added acc (map ref_key ms)"
proof (induction ms arbitrary: acc ord)
  case Nil
  then show ?case by simp
next
  case (Cons m ms)
  obtain kind digits where m: "m = (kind, digits)" by (cases m)
  show ?case
  proof (cases "ref_key (kind, digits) \<in> set acc")
    case True
    then show ?thesis using Cons.IH [of acc ord] by (simp add: m inline_loop_step)
  next
    case False
    have "identity (inline_row lookup ord (lower kind) digits) = ref_key (kind, digits)"
      by (simp add: ref_key_def)
    then show ?thesis
      using False Cons.IH [of "acc @ [ref_key (kind, digits)]" "Suc ord"]
      by (simp add: m inline_loop_step)
  qed
qed

lemma inline_loop_orders:
  "map order (inline_loop lookup ms (set acc) [] ord)
     = [ord..<ord + length (skip_added acc (map ref_key ms))]"
proof (induction ms arbitrary: acc ord)
  case Nil
  then show ?case by simp
next
  case (Cons m ms)
  obtain kind digits where m: "m = (kind, digits)" by (cases m)
  show ?case
  proof (cases "ref_key (kind, digits) \<in> set acc")
    case True
    then show ?thesis using Cons.IH [of acc ord] by (simp add: m inline_loop_step)
  next
    case False
    let ?n = "length (skip_added (acc @ [ref_key (kind, digits)]) (map ref_key ms))"
    have "[ord..<ord + Suc ?n] = ord # [Suc ord..<Suc ord + ?n]"
      by (subst upt_conv_Cons) simp_all
    then show ?thesis
      using False Cons.IH [of "acc @ [ref_key (kind, digits)]" "Suc ord"]
      by (simp add: m inline_loop_step del: upt_Suc)
  qed
qed

lemma inline_loop_ranks:
  "e \<in> set (inline_loop lookup ms (set acc) [] ord)
     \<Longrightarrow> rank e = (if order e = 1 then ''Best'' else ''Alternative'')"
proof (induction ms arbitrary: acc ord)
  case Nil
  then show ?case by simp
next
  case (Cons m ms)
  obtain kind digits where m: "m = (kind, digits)" by (cases m)
  show ?case
  proof (cases "ref_key (kind, digits) \<in> set acc")
    case True
    then have "e \<in> set (inline_loop lookup ms (set acc) [] ord)"
      using Cons.prems by (simp add: m inline_loop_step)
    then show ?thesis by (rule Cons.IH)
  next
    case False
    then have "e = inline_row lookup ord (lower kind) digits
        \<or> e \<in> set (inline_loop lookup ms (set (acc @ [ref_key (kind, digits)])) [] (Suc ord))"
      using Cons.prems by (simp add: m inline_loop_step)
    then show ?thesis
    proof
      assume "e = inline_row lookup ord (lower kind) digits"
      then show ?thesis by simp
    next
      assume "e \<in> set (inline_loop lookup ms (set (acc @ [ref_key (kind, digits)])) [] (Suc ord))"
      then show ?thesis by (rule Cons.IH)
    qed
  qed
qed

lemma extract_inline_refs_Nil:
  "findall ref_match section = [] \<Longrightarrow> extract_inline_refs section lookup = []"
  by (simp add: extract_inline_refs_def)

subsection \<open>The results of \<^verbatim>\<open>extract_by_slot\<close>\<close>

lemma sections_loop_entries:
  "(slot, items) \<in> set (sections_loop markup lookup guide_type headers) \<Longrightarrow>
     items \<noteq> [] \<and> slot \<in> set (valid_slots_of guide_type)
     \<and> (\<exists>header_end later. items = section_items guide_type lookup (section_of markup header_end later))"
proof (induction headers)
  case Nil
  then show ?case by simp
next
  case (Cons h later)
  obtain header_start header_end header_name where h: "h = (header_start, header_end, header_name)"
    by (cases h)
  show ?case
  proof (cases "(slot, items) \<in> set (sections_loop markup lookup guide_type later)")
    case True
    then show ?thesis by (rule Cons.IH)
  next
    case False
    then have here: "slot_name_of guide_type header_name \<in> set (valid_slots_of guide_type)
        \<and> section_items guide_type lookup (section_of markup header_end later) \<noteq> []
        \<and> slot = slot_name_of guide_type header_name
        \<and> items = section_items guide_type lookup (section_of markup header_end later)"
      using Cons.prems by (auto simp: h Let_def split: if_splits)
    then have "\<exists>e l. items = section_items guide_type lookup (section_of markup e l)"
      by (intro exI [of _ header_end] exI [of _ later]) simp
    then show ?thesis using here by simp
  qed
qed

lemma sections_loop_skip_empty:
  "section_items guide_type lookup (section_of markup header_end later) = [] \<Longrightarrow>
     sections_loop markup lookup guide_type ((header_start, header_end, header_name) # later)
       = sections_loop markup lookup guide_type later"
  by (simp add: Let_def)

text \<open>The output is made of the classified sections that have items, in document order.\<close>

lemma sections_loop_classified:
  "sections_loop markup lookup guide_type headers =
     map (\<lambda>(slot, section). (slot, section_items guide_type lookup section))
       (filter (\<lambda>(slot, section). section_items guide_type lookup section \<noteq> [])
          (classified markup guide_type headers))"
proof (induction headers)
  case Nil
  then show ?case by simp
next
  case (Cons h later)
  obtain header_start header_end header_name where h: "h = (header_start, header_end, header_name)"
    by (cases h)
  show ?case
    unfolding h by (simp add: Let_def Cons.IH)
qed

lemma extract_by_slot_classified:
  "extract_by_slot markup lookup guide_type =
     map (\<lambda>(slot, section). (slot, section_items guide_type lookup section))
       (filter (\<lambda>(slot, section). section_items guide_type lookup section \<noteq> [])
          (classified_sections markup guide_type))"
  by (simp add: extract_by_slot_def classified_sections_def sections_loop_classified)

lemma classified_section_in_output:
  assumes "(slot, section) \<in> set (classified_sections markup guide_type)"
    and "section_items guide_type lookup section \<noteq> []"
  shows "(slot, section_items guide_type lookup section)
           \<in> set (extract_by_slot markup lookup guide_type)"
  unfolding extract_by_slot_classified using assms by (force simp: image_iff)

subsection \<open>Tie groups\<close>

lemma filter_ties_row_entries:
  "length (filter tie_with_previous (row_entries lookup k r s ids)) = length ids - 1"
proof (cases ids)
  case Nil
  then show ?thesis by (simp add: row_entries_def)
next
  case (Cons x xs)
  let ?f = "\<lambda>(tie_index, item).
            \<lparr>order = k, rank = r, item_id = Some (int_of_digits item), item_name = lookup item,
             spell_id = None, source = s, tie_group_size = length ids,
             tie_group_index = tie_index, tie_with_previous = (tie_index > 1),
             ref_type = ''item'', ref_id = int_of_digits item\<rparr>"
  have upt: "[1..<Suc (length ids)] = 1 # [2..<Suc (length ids)]"
    unfolding Cons by (subst upt_conv_Cons) (simp_all del: upt_Suc add: numeral_2_eq_2)
  have tail: "filter tie_with_previous (map ?f (zip [2..<Suc (length ids)] xs))
            = map ?f (zip [2..<Suc (length ids)] xs)"
  proof (rule filter_True, rule ballI)
    fix e assume "e \<in> set (map ?f (zip [2..<Suc (length ids)] xs))"
    then obtain t item where "(t, item) \<in> set (zip [2..<Suc (length ids)] xs)" and e: "e = ?f (t, item)"
      by auto
    then have "t \<in> set [2..<Suc (length ids)]" by (meson set_zip_leftD)
    then have "1 < t" by (simp del: upt_Suc)
    then show "tie_with_previous e" using e by simp
  qed
  have "row_entries lookup k r s ids = ?f (1, x) # map ?f (zip [2..<Suc (length ids)] xs)"
    unfolding row_entries_def upt by (simp add: Cons)
  then have "length (filter tie_with_previous (row_entries lookup k r s ids))
           = length (map ?f (zip [2..<Suc (length ids)] xs))"
    using tail by simp
  also have "\<dots> = length xs" by (simp add: Cons del: upt_Suc)
  finally show ?thesis by (simp add: Cons)
qed

lemma sorted_map_const: "\<forall>x \<in> set xs. f x = (k::nat) \<Longrightarrow> sorted (map f xs)"
  by (induction xs) auto

lemma sorted_orders_numbered_entries: "sorted (map order (numbered_entries lookup k rows))"
proof (induction rows arbitrary: k)
  case Nil
  then show ?case by simp
next
  case (Cons row rows)
  have here: "\<forall>e \<in> set (row_output lookup k row). order e = k"
    by (simp add: order_row_output)
  then have "sorted (map order (row_output lookup k row))"
    by (rule sorted_map_const)
  moreover have "\<forall>a \<in> set (row_output lookup k row).
      \<forall>b \<in> set (numbered_entries lookup (Suc k) rows). order a \<le> order b"
    using here order_numbered_entries_ge [of _ lookup "Suc k" rows] by fastforce
  ultimately show ?case using Cons.IH [of "Suc k"] by (simp add: sorted_append)
qed

section \<open>Facts about the markup locators\<close>

lemma startswith_iff: "startswith s p \<longleftrightarrow> (\<exists>r. s = p @ r)"
proof (induction s p rule: startswith.induct)
  case (1 s)
  then show ?case by simp
next
  case (2 p ps)
  then show ?case by simp
next
  case (3 c cs p ps)
  then show ?case by auto
qed

lemma startswith_append: "startswith s (p @ q) \<Longrightarrow> startswith s p"
  by (auto simp: startswith_iff)

lemma re_search_found:
  assumes "\<And>t. m t \<noteq> None \<Longrightarrow> print_html_call_string t \<noteq> None"
    and "re_search m s \<noteq> None"
  shows "has_print_html_call s"
  using assms(2)
proof (induction s)
  case Nil
  then have "print_html_call_string [] \<noteq> None" using assms(1) by simp
  then show ?case by (simp add: print_html_call_string_def)
next
  case (Cons c cs)
  show ?case
  proof (cases "m (c # cs)")
    case None
    then have "re_search m cs \<noteq> None" using Cons.prems by simp
    then show ?thesis using Cons.IH by simp
  next
    case (Some found)
    then have "print_html_call_string (c # cs) \<noteq> None" using assms(1) by simp
    then show ?thesis by simp
  qed
qed

lemma call_with_paren:
  assumes "startswith s ''WH.markup.printHtml(''"
  shows "print_html_call_string s = quoted_string (dropWhile is_space (drop 20 s))"
proof -
  from assms obtain r where s: "s = ''WH.markup.printHtml('' @ r"
    by (auto simp: startswith_iff)
  have paren: "\<not> is_space (CHR ''('')" by (simp add: is_space_def)
  have prefix: "startswith s ''WH.markup.printHtml''"
    unfolding s by simp
  have "drop 19 s = CHR ''('' # r" and "drop 20 s = r"
    unfolding s by simp_all
  then show ?thesis
    using prefix paren by (simp add: print_html_call_string_def)
qed

lemma items_match_is_call: "items_print_html_match t \<noteq> None \<Longrightarrow> print_html_call_string t \<noteq> None"
  by (auto simp: items_print_html_match_def call_with_paren split: if_splits option.splits)

lemma guide_match_is_call: "guide_markup_match t \<noteq> None \<Longrightarrow> print_html_call_string t \<noteq> None"
  by (auto simp: guide_markup_match_def call_with_paren split: if_splits option.splits)

lemma payload_match_is_call: "payload_match t \<noteq> None \<Longrightarrow> print_html_call_string t \<noteq> None"
  by (auto simp: payload_match_def split: option.splits)

lemma payload_fallback_match_is_call:
  "payload_fallback_match t \<noteq> None \<Longrightarrow> print_html_call_string t \<noteq> None"
  by (auto simp: payload_fallback_match_def split: option.splits)

section \<open>Facts about \<^verbatim>\<open>parse_guide_slots\<close>\<close>

lemma assign_slots_apply:
  "assign_slots target_slots ranked m slot_id =
     (if slot_id \<in> set target_slots then Some ranked else m slot_id)"
  unfolding assign_slots_def
  by (induction target_slots arbitrary: m) auto

lemma slots_loop_last_writer:
  "slots_loop from_markup secs m slot_id =
     (case filter (writes_slot from_markup slot_id) secs of
        [] \<Rightarrow> m slot_id
      | q # qs \<Rightarrow> Some (section_ranked from_markup (snd (last (q # qs)))))"
proof (induction secs arbitrary: m)
  case Nil
  then show ?case by simp
next
  case (Cons sec later)
  obtain heading section_html where sec: "sec = (heading, section_html)" by (cases sec)
  show ?case
  proof (cases "writes_slot from_markup slot_id sec")
    case True
    then have targets: "section_slot_ids heading section_html \<noteq> []"
      and member: "slot_id \<in> set (section_slot_ids heading section_html)"
      and ranked: "section_ranked from_markup section_html \<noteq> []"
      by (auto simp: writes_slot_def sec)
    have step: "slots_loop from_markup (sec # later) m =
        slots_loop from_markup later
          (assign_slots (section_slot_ids heading section_html)
             (section_ranked from_markup section_html) m)"
      using targets ranked by (simp add: sec Let_def)
    show ?thesis
      unfolding step Cons.IH
      using True member by (simp add: assign_slots_apply sec split: list.splits)
  next
    case False
    have "slots_loop from_markup (sec # later) m slot_id = slots_loop from_markup later m slot_id"
    proof (cases "section_slot_ids heading section_html = []
                  \<or> section_ranked from_markup section_html = []")
      case True
      then show ?thesis by (auto simp: sec Let_def)
    next
      case both: False
      then have "slot_id \<notin> set (section_slot_ids heading section_html)"
        using False by (simp add: writes_slot_def sec)
      then show ?thesis
        using both by (simp add: sec Let_def Cons.IH assign_slots_apply split: list.splits)
    qed
    then show ?thesis using False by (simp add: Cons.IH)
  qed
qed

lemma ring_ids_together:
  "11 \<in> set (section_slot_ids heading section_html)
     \<longleftrightarrow> 12 \<in> set (section_slot_ids heading section_html)"
  by (simp add: section_slot_ids_def Let_def)

lemma trinket_ids_together:
  "13 \<in> set (section_slot_ids heading section_html)
     \<longleftrightarrow> 14 \<in> set (section_slot_ids heading section_html)"
  by (simp add: section_slot_ids_def Let_def)

lemma parse_guide_slots_last_writer:
  "parse_guide_slots html_unescape html_text slot_id =
     (case guide_source html_text of
        None \<Rightarrow> None
      | Some (from_markup, source_text) \<Rightarrow>
          (case filter (writes_slot from_markup slot_id)
                       (source_sections html_unescape from_markup source_text) of
             [] \<Rightarrow> None
           | q # qs \<Rightarrow> Some (section_ranked from_markup (snd (last (q # qs))))))"
  by (simp add: parse_guide_slots_def slots_loop_last_writer split: option.splits)

section \<open>Facts about the merge on the store\<close>

lemma append_new_store_dicts [simp]: "dict_objs (append_new_store ordered xs h) = dict_objs h"
  by (induction xs arbitrary: h) (auto simp: list_append_def)

lemma append_new_store_next [simp]: "next_addr (append_new_store ordered xs h) = next_addr h"
  by (induction xs arbitrary: h) (auto simp: list_append_def)

lemma append_new_store_other:
  "a \<noteq> ordered \<Longrightarrow> list_objs (append_new_store ordered xs h) a = list_objs h a"
  by (induction xs arbitrary: h) (auto simp: list_append_def)

lemma append_new_store_ordered:
  "list_objs h ordered \<noteq> None \<Longrightarrow>
     list_objs (append_new_store ordered xs h) ordered
       = Some (append_new (read_list h ordered) xs)"
proof (induction xs arbitrary: h)
  case Nil
  then show ?case by (auto simp: read_list_def)
next
  case (Cons x xs)
  show ?case
  proof (cases "x \<in> set (read_list h ordered)")
    case True
    then show ?thesis using Cons.IH [OF Cons.prems] by simp
  next
    case False
    have "list_objs (list_append h ordered x) ordered \<noteq> None"
      by (simp add: list_append_def)
    then have "list_objs (append_new_store ordered xs (list_append h ordered x)) ordered
        = Some (append_new (read_list (list_append h ordered x) ordered) xs)"
      by (rule Cons.IH)
    moreover have "read_list (list_append h ordered x) ordered = read_list h ordered @ [x]"
      by (simp add: list_append_def read_list_def)
    ultimately show ?thesis using False by simp
  qed
qed

lemma dict_get_append_new_store [simp]:
  "dict_get (append_new_store ordered xs h) d slot_id = dict_get h d slot_id"
  by (simp add: dict_get_def)

lemma get_items_append_new_store:
  "dict_get h d slot_id \<noteq> Some ordered \<Longrightarrow>
     get_items (append_new_store ordered xs h) d slot_id = get_items h d slot_id"
  by (auto simp: get_items_def read_list_def append_new_store_other split: option.splits)

text \<open>One turn of the loop, started at a store whose next free address is \<open>next_addr h\<close>.\<close>

lemma merge_slot_step_effect:
  fixes merged :: nat
  assumes curr: "dict_get h curr_slots slot_id \<noteq> Some (next_addr h)"
    and prev: "dict_get h prev_slots slot_id \<noteq> Some (next_addr h)"
  defines "built \<equiv> append_new (append_new [] (get_items h curr_slots slot_id))
                      (get_items h prev_slots slot_id)"
  defines "h' \<equiv> merge_slot_step merged prev_slots curr_slots slot_id h"
  shows "next_addr h' = Suc (next_addr h)"
    and "\<And>a. a \<noteq> next_addr h \<Longrightarrow> list_objs h' a = list_objs h a"
    and "list_objs h' (next_addr h) = Some built"
    and "\<And>d. d \<noteq> merged \<Longrightarrow> dict_objs h' d = dict_objs h d"
    and "dict_get h' merged =
           (if built \<noteq> [] then (dict_get h merged)(slot_id \<mapsto> next_addr h) else dict_get h merged)"
proof -
  let ?o = "next_addr h"
  let ?h1 = "h\<lparr>list_objs := (list_objs h)(?o \<mapsto> []), next_addr := Suc ?o\<rparr>"
  let ?h2 = "append_new_store ?o (get_items ?h1 curr_slots slot_id) ?h1"
  let ?h3 = "append_new_store ?o (get_items ?h2 prev_slots slot_id) ?h2"
  have dg1: "dict_get ?h1 d s = dict_get h d s" for d s
    by (simp add: dict_get_def)
  have items1: "get_items ?h1 curr_slots slot_id = get_items h curr_slots slot_id"
    using curr by (auto simp: get_items_def dg1 read_list_def split: option.splits)
  have items1p: "get_items ?h1 prev_slots slot_id = get_items h prev_slots slot_id"
    using prev by (auto simp: get_items_def dg1 read_list_def split: option.splits)
  have "dict_get ?h1 prev_slots slot_id \<noteq> Some ?o" using prev by (simp add: dg1)
  then have items2: "get_items ?h2 prev_slots slot_id = get_items h prev_slots slot_id"
    by (simp add: get_items_append_new_store items1p)
  have l1: "list_objs ?h1 ?o \<noteq> None" by simp
  have r1: "read_list ?h1 ?o = []" by (simp add: read_list_def)
  have l2: "list_objs ?h2 ?o = Some (append_new [] (get_items h curr_slots slot_id))"
    using append_new_store_ordered [OF l1] by (simp add: r1 items1)
  then have r2: "read_list ?h2 ?o = append_new [] (get_items h curr_slots slot_id)"
    by (simp add: read_list_def)
  have "list_objs ?h2 ?o \<noteq> None" using l2 by simp
  then have l3: "list_objs ?h3 ?o = Some built"
    using append_new_store_ordered [of ?h2 ?o] by (simp add: r2 items2 built_def)
  then have r3: "read_list ?h3 ?o = built" by (simp add: read_list_def)
  have other3: "list_objs ?h3 a = list_objs h a" if "a \<noteq> ?o" for a
    using that by (simp add: append_new_store_other)
  have step: "h' = (if built \<noteq> [] then dict_set ?h3 merged slot_id ?o else ?h3)"
    unfolding h'_def merge_slot_step_def alloc_list_def by (simp add: Let_def r3)
  show "next_addr h' = Suc (next_addr h)"
    unfolding step by (simp add: dict_set_def)
  show "list_objs h' a = list_objs h a" if "a \<noteq> next_addr h" for a
    unfolding step using other3 [OF that] by (simp add: dict_set_def)
  show "list_objs h' (next_addr h) = Some built"
    unfolding step using l3 by (simp add: dict_set_def)
  show "dict_objs h' d = dict_objs h d" if "d \<noteq> merged" for d
    unfolding step using that by (simp add: dict_set_def)
  show "dict_get h' merged =
           (if built \<noteq> [] then (dict_get h merged)(slot_id \<mapsto> next_addr h) else dict_get h merged)"
    unfolding step by (rule ext) (simp add: dict_set_def dict_get_def split: option.splits)
qed

lemma read_map_apply:
  "read_map h d s = (case dict_get h d s of None \<Rightarrow> None | Some a \<Rightarrow> Some (read_list h a))"
  by (simp add: read_map_def)

lemma slot_get_read_map: "slot_get (read_map h d) s = get_items h d s"
  by (simp add: slot_get_def read_map_def get_items_def split: option.splits)

lemma frame_get_items:
  assumes "allocated_map h0 d"
    and "\<forall>a < next_addr h0. dict_objs h a = dict_objs h0 a \<and> list_objs h a = list_objs h0 a"
  shows "dict_get h d s = dict_get h0 d s" and "get_items h d s = get_items h0 d s"
proof -
  have d: "d < next_addr h0" using assms(1) by (simp add: allocated_map_def)
  then show dg: "dict_get h d s = dict_get h0 d s"
    using assms(2) by (simp add: dict_get_def)
  show "get_items h d s = get_items h0 d s"
  proof (cases "dict_get h0 d s")
    case None
    then show ?thesis by (simp add: get_items_def dg)
  next
    case (Some a)
    then have "a < next_addr h0" using assms(1) by (simp add: allocated_map_def)
    then have "list_objs h a = list_objs h0 a" using assms(2) by simp
    then show ?thesis by (simp add: get_items_def dg Some read_list_def)
  qed
qed

lemma frame_read_map:
  assumes "allocated_map h0 d"
    and "\<forall>a < next_addr h0. dict_objs h a = dict_objs h0 a \<and> list_objs h a = list_objs h0 a"
  shows "read_map h d = read_map h0 d"
proof (rule ext)
  fix s
  show "read_map h d s = read_map h0 d s"
  proof (cases "dict_get h0 d s")
    case None
    then show ?thesis using frame_get_items(1) [OF assms] by (simp add: read_map_def)
  next
    case (Some a)
    then have "a < next_addr h0" using assms(1) by (simp add: allocated_map_def)
    then have "list_objs h a = list_objs h0 a" using assms(2) by simp
    then show ?thesis
      using frame_get_items(1) [OF assms] Some by (simp add: read_map_def read_list_def)
  qed
qed

lemma merge_inv_init:
  "merge_inv h prev_slots curr_slots {} (snd (alloc_dict h))"
  by (simp add: merge_inv_def alloc_dict_def dict_get_def read_map_def)

lemma merge_inv_step:
  assumes inv: "merge_inv h0 prev_slots curr_slots done h"
    and ap: "allocated_map h0 prev_slots"
    and ac: "allocated_map h0 curr_slots"
  shows "merge_inv h0 prev_slots curr_slots (insert s done)
           (merge_slot_step (next_addr h0) prev_slots curr_slots s h)"
proof -
  let ?n = "next_addr h0"
  let ?A = "read_map h0 prev_slots"
  let ?B = "read_map h0 curr_slots"
  let ?h' = "merge_slot_step ?n prev_slots curr_slots s h"
  let ?built = "merge_ordered ?A ?B s"
  from inv have above: "?n < next_addr h"
    and frame: "\<forall>a < ?n. dict_objs h a = dict_objs h0 a \<and> list_objs h a = list_objs h0 a"
    and fresh: "\<And>t a. dict_get h ?n t = Some a \<Longrightarrow> ?n < a \<and> a < next_addr h"
    and content: "\<And>t. read_map h ?n t =
              (if t \<in> done \<and> merge_ordered ?A ?B t \<noteq> [] then Some (merge_ordered ?A ?B t) else None)"
    by (auto simp: merge_inv_def)
  have below: "a < ?n" if "dict_get h0 d s = Some a" and "allocated_map h0 d" for d a
    using that by (simp add: allocated_map_def)
  have curr_ne: "dict_get h curr_slots s \<noteq> Some (next_addr h)"
  proof
    assume "dict_get h curr_slots s = Some (next_addr h)"
    then have "dict_get h0 curr_slots s = Some (next_addr h)"
      using frame_get_items(1) [OF ac frame, of s] by simp
    then have "next_addr h < ?n" using ac by (rule below)
    then show False using above by simp
  qed
  have prev_ne: "dict_get h prev_slots s \<noteq> Some (next_addr h)"
  proof
    assume "dict_get h prev_slots s = Some (next_addr h)"
    then have "dict_get h0 prev_slots s = Some (next_addr h)"
      using frame_get_items(1) [OF ap frame, of s] by simp
    then have "next_addr h < ?n" using ap by (rule below)
    then show False using above by simp
  qed
  have built: "append_new (append_new [] (get_items h curr_slots s)) (get_items h prev_slots s) = ?built"
    by (simp add: merge_ordered_def slot_get_read_map
        frame_get_items(2) [OF ac frame] frame_get_items(2) [OF ap frame])
  note eff = merge_slot_step_effect [OF curr_ne prev_ne, where merged = "?n", unfolded built]
  have next': "next_addr ?h' = Suc (next_addr h)" by (rule eff(1))
  have lists': "list_objs ?h' a = list_objs h a" if "a \<noteq> next_addr h" for a
    using that by (rule eff(2))
  have new': "list_objs ?h' (next_addr h) = Some ?built" by (rule eff(3))
  have dicts': "dict_objs ?h' d = dict_objs h d" if "d \<noteq> ?n" for d
    using that by (rule eff(4))
  have get': "dict_get ?h' ?n =
      (if ?built \<noteq> [] then (dict_get h ?n)(s \<mapsto> next_addr h) else dict_get h ?n)"
    by (rule eff(5))
  have rm: "read_map ?h' ?n t = (if ?built \<noteq> [] \<and> t = s then Some ?built else read_map h ?n t)" for t
  proof (cases "?built \<noteq> [] \<and> t = s")
    case True
    then have "dict_get ?h' ?n t = Some (next_addr h)" using get' by simp
    then have "read_map ?h' ?n t = Some (read_list ?h' (next_addr h))"
      by (simp add: read_map_apply)
    also have "read_list ?h' (next_addr h) = ?built" using new' by (simp add: read_list_def)
    finally show ?thesis using True by simp
  next
    case False
    then have same: "dict_get ?h' ?n t = dict_get h ?n t" using get' by auto
    have "read_map ?h' ?n t = read_map h ?n t"
    proof (cases "dict_get h ?n t")
      case None
      then show ?thesis using same by (simp add: read_map_apply)
    next
      case (Some a)
      then have "a \<noteq> next_addr h" using fresh [of t a] by simp
      then have "list_objs ?h' a = list_objs h a" by (rule lists')
      then have "read_list ?h' a = read_list h a" by (simp add: read_list_def)
      then show ?thesis using same Some by (simp add: read_map_apply)
    qed
    then show ?thesis using False by auto
  qed
  show ?thesis
    unfolding merge_inv_def
  proof (intro conjI allI impI)
    show "?n < next_addr ?h'" using above next' by simp
  next
    fix a assume a: "a < ?n"
    then have "a \<noteq> ?n" and "a \<noteq> next_addr h" using above by simp_all
    then show "dict_objs ?h' a = dict_objs h0 a" using dicts' frame a by simp
  next
    fix a assume a: "a < ?n"
    then have "a \<noteq> next_addr h" using above by simp
    then show "list_objs ?h' a = list_objs h0 a" using lists' frame a by simp
  next
    fix t a assume "dict_get ?h' ?n t = Some a"
    then have "a = next_addr h \<or> dict_get h ?n t = Some a"
      using get' by (auto split: if_splits)
    then show "?n < a" using above fresh [of t a] by auto
  next
    fix t a assume "dict_get ?h' ?n t = Some a"
    then have "a = next_addr h \<or> dict_get h ?n t = Some a"
      using get' by (auto split: if_splits)
    then show "a < next_addr ?h'" using next' fresh [of t a] by auto
  next
    fix t
    show "read_map ?h' ?n t =
        (if t \<in> insert s done \<and> merge_ordered ?A ?B t \<noteq> [] then Some (merge_ordered ?A ?B t) else None)"
      unfolding rm content by auto
  qed
qed

lemma merge_inv_fold:
  assumes "allocated_map h0 prev_slots" and "allocated_map h0 curr_slots"
  shows "merge_inv h0 prev_slots curr_slots done h \<Longrightarrow>
     merge_inv h0 prev_slots curr_slots (done \<union> set slot_ids)
       (fold (merge_slot_step (next_addr h0) prev_slots curr_slots) slot_ids h)"
proof (induction slot_ids arbitrary: "done" h)
  case Nil
  then show ?case by simp
next
  case (Cons s slot_ids)
  have "merge_inv h0 prev_slots curr_slots (insert s done)
          (merge_slot_step (next_addr h0) prev_slots curr_slots s h)"
    using Cons.prems assms by (rule merge_inv_step)
  then have "merge_inv h0 prev_slots curr_slots (insert s done \<union> set slot_ids)
      (fold (merge_slot_step (next_addr h0) prev_slots curr_slots) slot_ids
         (merge_slot_step (next_addr h0) prev_slots curr_slots s h))"
    by (rule Cons.IH)
  then show ?case by simp
qed

lemma merge_inv_result:
  assumes ap: "allocated_map h prev_slots" and ac: "allocated_map h curr_slots"
  shows "merge_inv h prev_slots curr_slots (set slot_ids)
           (snd (merge_slot_maps_store slot_ids prev_slots curr_slots h))"
    and "fst (merge_slot_maps_store slot_ids prev_slots curr_slots h) = next_addr h"
proof -
  have "merge_inv h prev_slots curr_slots ({} \<union> set slot_ids)
      (fold (merge_slot_step (next_addr h) prev_slots curr_slots) slot_ids (snd (alloc_dict h)))"
    using ap ac merge_inv_init by (rule merge_inv_fold)
  then show "merge_inv h prev_slots curr_slots (set slot_ids)
           (snd (merge_slot_maps_store slot_ids prev_slots curr_slots h))"
    by (simp add: merge_slot_maps_store_def alloc_dict_def)
  show "fst (merge_slot_maps_store slot_ids prev_slots curr_slots h) = next_addr h"
    by (simp add: merge_slot_maps_store_def alloc_dict_def)
qed

section \<open>Every pattern consumes at least one character\<close>

lemma lazy_until_ci_consumes:
  "lazy_until_ci close s = Some (g, rest) \<Longrightarrow> length rest \<le> length s"
proof (induction s arbitrary: g)
  case Nil
  then show ?case by (simp split: if_splits)
next
  case (Cons c cs)
  show ?case
  proof (cases "startswith_ci (c # cs) close")
    case True
    then show ?thesis using Cons.prems by auto
  next
    case False
    then obtain g' where "lazy_until_ci close cs = Some (g', rest)"
      using Cons.prems by (auto split: option.splits)
    then have "length rest \<le> length cs" by (rule Cons.IH)
    then show ?thesis by simp
  qed
qed

lemma after_terminator_shorter:
  "dropWhile P (drop n s) = x # body \<Longrightarrow> length body < length s"
proof -
  assume a: "dropWhile P (drop n s) = x # body"
  have "length (dropWhile P (drop n s)) \<le> length (drop n s)" by (rule length_dropWhile_le)
  then have "Suc (length body) \<le> length s - n" using a by simp
  then show ?thesis by simp
qed

lemma match_block_ci_consumes:
  "match_block_ci opening close s = Some (g, rest) \<Longrightarrow> length rest < length s"
  unfolding match_block_ci_def
  by (auto split: if_splits list.splits
      dest!: lazy_until_ci_consumes after_terminator_shorter)

lemma match_html_block_ci_consumes:
  "match_html_block_ci opening close s = Some (g, rest) \<Longrightarrow> length rest < length s"
  unfolding match_html_block_ci_def
  by (auto split: if_splits list.splits
      dest!: lazy_until_ci_consumes after_terminator_shorter)

lemma digits_then_bracket_consumes:
  "digits_then_bracket s = Some (g, rest) \<Longrightarrow> length rest < length s"
proof -
  assume a: "digits_then_bracket s = Some (g, rest)"
  then obtain c where "dropWhile is_digit s = c # rest"
    by (auto simp: digits_then_bracket_def Let_def split: if_splits list.splits)
  then show ?thesis using after_terminator_shorter [of is_digit 0 s c rest] by simp
qed

lemma tr_match_consumes: "tr_match s = Some (g, rest) \<Longrightarrow> length rest < length s"
proof -
  assume a: "tr_match s = Some (g, rest)"
  then have p: "startswith_ci s ''[tr]''" and l: "lazy_until_ci ''[/tr]'' (drop 4 s) = Some (g, rest)"
    by (auto simp: tr_match_def split: if_splits)
  from p have "s \<noteq> []" by auto
  moreover have "length rest \<le> length s - 4" using lazy_until_ci_consumes [OF l] by simp
  ultimately show ?thesis by (cases s) auto
qed

lemma item_match_consumes: "item_match s = Some (g, rest) \<Longrightarrow> length rest < length s"
  by (auto simp: item_match_def split: if_splits dest!: digits_then_bracket_consumes)

lemma ref_match_consumes: "ref_match s = Some (g, rest) \<Longrightarrow> length rest < length s"
  by (auto simp: ref_match_def Let_def split: if_splits option.splits
      dest!: digits_then_bracket_consumes)

lemma h3_toc_here_consumes: "h3_toc_here s = Some (g, rest) \<Longrightarrow> length rest < length s"
proof -
  assume a: "h3_toc_here s = Some (g, rest)"
  then obtain q after_quote b body g' where
    q: "dropWhile (\<lambda>c. c \<noteq> CHR 0x22) (drop 5 s) = q # after_quote"
    and b: "dropWhile (\<lambda>c. c \<noteq> CHR '']'') after_quote = b # body"
    and l: "lazy_until_ci ''[/h3]'' body = Some (g', rest)"
    by (auto simp: h3_toc_here_def Let_def split: if_splits list.splits option.splits)
  have "length after_quote < length s" using q by (rule after_terminator_shorter)
  moreover have "length body < length after_quote"
    using after_terminator_shorter [of "\<lambda>c. c \<noteq> CHR '']''" 0 after_quote b body] b by simp
  moreover have "length rest \<le> length body" using l by (rule lazy_until_ci_consumes)
  ultimately show ?thesis by simp
qed

lemma h3_scan_consumes: "h3_scan s = Some (g, rest) \<Longrightarrow> length rest < length s"
proof (induction s)
  case Nil
  then show ?case using h3_toc_here_consumes [of "[]" g rest] by simp
next
  case (Cons c cs)
  show ?case
  proof (cases "c = CHR '']''")
    case True
    then show ?thesis using Cons.prems h3_toc_here_consumes [of "c # cs" g rest] by simp
  next
    case False
    show ?thesis
    proof (cases "h3_scan cs")
      case None
      then show ?thesis
        using False Cons.prems h3_toc_here_consumes [of "c # cs" g rest] by simp
    next
      case (Some found)
      then have "h3_scan cs = Some (g, rest)" using False Cons.prems by simp
      then have "length rest < length cs" by (rule Cons.IH)
      then show ?thesis by simp
    qed
  qed
qed

lemma h3_match_consumes: "h3_match s = Some (g, rest) \<Longrightarrow> length rest < length s"
proof -
  assume "h3_match s = Some (g, rest)"
  then have "h3_scan (drop 3 s) = Some (g, rest)" and "startswith_ci s ''[h3''"
    by (auto simp: h3_match_def split: if_splits)
  then have "length rest < length (drop 3 s)" and "s \<noteq> []"
    by (auto dest: h3_scan_consumes)
  then show ?thesis by simp
qed

lemma lazy_until_heading_close_consumes:
  "lazy_until_heading_close lb rb s = Some (g, rest) \<Longrightarrow> length rest \<le> length s"
proof (induction s arbitrary: g)
  case Nil
  then show ?case by simp
next
  case (Cons c cs)
  show ?case
  proof (cases "heading_close_here lb rb (c # cs)")
    case True
    then show ?thesis using Cons.prems by auto
  next
    case False
    then obtain g' where "lazy_until_heading_close lb rb cs = Some (g', rest)"
      using Cons.prems by (auto split: option.splits)
    then have "length rest \<le> length cs" by (rule Cons.IH)
    then show ?thesis by simp
  qed
qed

lemma heading_match_consumes:
  "heading_match lb rb s = Some (g, rest) \<Longrightarrow> length rest < length s"
proof -
  assume a: "heading_match lb rb s = Some (g, rest)"
  then obtain a0 h d attrs x body where s: "s = a0 # h # d # attrs"
    and t: "dropWhile (\<lambda>c. c \<noteq> rb) attrs = x # body"
    and l: "lazy_until_heading_close lb rb body = Some (g, rest)"
    by (auto simp: heading_match_def split: list.splits if_splits)
  have "length body < length attrs"
    using after_terminator_shorter [of "\<lambda>c. c \<noteq> rb" 0 attrs x body] t by simp
  moreover have "length rest \<le> length body" using l by (rule lazy_until_heading_close_consumes)
  ultimately show ?thesis by (simp add: s)
qed

lemma html_table_match_consumes:
  "html_table_match s = Some (g, rest) \<Longrightarrow> length rest < length s"
  by (auto simp: html_table_match_def split: option.splits dest: match_html_block_ci_consumes)

lemma tbc_item_match_consumes:
  "tbc_item_match s = Some (g, rest) \<Longrightarrow> length rest < length s"
proof -
  assume a: "tbc_item_match s = Some (g, rest)"
  then have p: "startswith_ci s ''/tbc/item=''" and r: "rest = dropWhile is_digit (drop 10 s)"
    by (auto simp: tbc_item_match_def split: if_splits)
  have "length rest \<le> length (drop 10 s)" unfolding r by (rule length_dropWhile_le)
  moreover have "s \<noteq> []" using p by auto
  ultimately show ?thesis by (cases s) auto
qed

lemma item_spaced_match_consumes:
  "item_spaced_match s = Some (g, rest) \<Longrightarrow> length rest < length s"
proof -
  assume a: "item_spaced_match s = Some (g, rest)"
  then obtain c where
    "dropWhile is_space (dropWhile is_digit (dropWhile is_space (drop 6 s))) = c # rest"
    by (auto simp: item_spaced_match_def Let_def split: if_splits list.splits)
  then have "Suc (length rest)
      = length (dropWhile is_space (dropWhile is_digit (dropWhile is_space (drop 6 s))))"
    by simp
  also have "\<dots> \<le> length (dropWhile is_digit (dropWhile is_space (drop 6 s)))"
    by (rule length_dropWhile_le)
  also have "\<dots> \<le> length (dropWhile is_space (drop 6 s))" by (rule length_dropWhile_le)
  also have "\<dots> \<le> length (drop 6 s)" by (rule length_dropWhile_le)
  also have "\<dots> \<le> length s" by simp
  finally show ?thesis by simp
qed

text \<open>All patterns that \<open>finditer\<close> and \<open>findall\<close> are used with.\<close>

lemma patterns_consume:
  assumes "m \<in> {table_match, td_match, h4_match, tr_match, item_match, h3_match,
                html_tr_match, html_td_match, html_table_match, markup_heading_match,
                html_heading_match, tbc_item_match, item_spaced_match}"
    and "m s = Some (g, rest)"
  shows "length rest < length s"
  using assms
  by (auto simp: table_match_def td_match_def h4_match_def html_tr_match_def html_td_match_def
        markup_heading_match_def html_heading_match_def
      dest: match_block_ci_consumes match_html_block_ci_consumes tr_match_consumes
        item_match_consumes h3_match_consumes html_table_match_consumes heading_match_consumes
        tbc_item_match_consumes item_spaced_match_consumes)

section \<open>Claims about the cross-phase merge\<close>

text \<open>
  C1. For all slot maps A (prior) and B (current) and every slot: the entry of
  \<open>merge_slot_maps A B\<close> is the list made of the items of B's list in order, skipping
  the ones already added, followed by the items of A's list in order, skipping the ones
  already added. That list has no duplicate, holds every item of either input for the
  slot and nothing else, and a slot absent from both inputs is absent from the result.
  (A slot whose built list is empty is not stored, so its entry reads as the empty list.)
\<close>

theorem merge_slot_maps_builds_spec_list:
  "slot_get (merge_slot_maps A B) s = spec_merge_list (slot_get B s) (slot_get A s)
   \<and> distinct (slot_get (merge_slot_maps A B) s)
   \<and> set (slot_get (merge_slot_maps A B) s) = set (slot_get A s) \<union> set (slot_get B s)
   \<and> (s \<in> dom A \<union> dom B \<longrightarrow>
        merge_slot_maps A B s =
          (if spec_merge_list (slot_get B s) (slot_get A s) = [] then None
           else Some (spec_merge_list (slot_get B s) (slot_get A s))))
   \<and> (s \<notin> dom A \<union> dom B \<longrightarrow> merge_slot_maps A B s = None)"
proof -
  have built: "slot_get (merge_slot_maps A B) s = spec_merge_list (slot_get B s) (slot_get A s)"
    by (simp add: slot_get_merge merge_ordered_spec)
  have present: "s \<in> dom A \<union> dom B \<longrightarrow>
        merge_slot_maps A B s =
          (if spec_merge_list (slot_get B s) (slot_get A s) = [] then None
           else Some (spec_merge_list (slot_get B s) (slot_get A s)))"
    by (simp add: merge_slot_maps_def Let_def merge_ordered_spec)
  have absent: "s \<notin> dom A \<union> dom B \<longrightarrow> merge_slot_maps A B s = None"
    by (simp add: merge_slot_maps_def)
  from built present absent show ?thesis
    by (simp add: distinct_spec_merge_list set_spec_merge_list Un_commute)
qed

theorem merge_slot_maps_builds_spec_list_witness:
  "merge_slot_maps [1 \<mapsto> [10], 3 \<mapsto> [7]] [1 \<mapsto> [20, 10, 20]] 1 = Some [20, 10]
   \<and> merge_slot_maps [1 \<mapsto> [10], 3 \<mapsto> [7]] [1 \<mapsto> [20, 10, 20]] 3 = Some [7]
   \<and> merge_slot_maps [1 \<mapsto> [10], 3 \<mapsto> [7]] [1 \<mapsto> [20, 10, 20]] 2 = None"
  using merge_slot_maps_builds_spec_list [of "[1 \<mapsto> [10], 3 \<mapsto> [7]]" "[1 \<mapsto> [20, 10, 20]]" 1]
        merge_slot_maps_builds_spec_list [of "[1 \<mapsto> [10], 3 \<mapsto> [7]]" "[1 \<mapsto> [20, 10, 20]]" 3]
        merge_slot_maps_builds_spec_list [of "[1 \<mapsto> [10], 3 \<mapsto> [7]]" "[1 \<mapsto> [20, 10, 20]]" 2]
  by (simp add: slot_get_def spec_merge_list_def)

text \<open>
  C4. For all per-phase slot maps, the phase loop of \<open>main\<close> (phase 1 taken as parsed,
  every later phase merged with the previous result as prior) leaves, for every slot
  and every phase \<open>k\<close> of 1..5, a list whose items are exactly the items seen for the slot
  in phases \<open>1..k\<close>. From phase 2 on the list is the concatenation of the phases' lists
  from the most recent back to the first, each in its own order, with every item kept
  at its first occurrence only; at phase 1 it is the parsed list itself.
\<close>

theorem sequential_merge_union_recency_order:
  assumes "1 \<le> k" and "k \<le> 5"
  shows "set (phase_items (merge_phases parsed) k s) = (\<Union>j\<in>{1..k}. set (slot_get (parsed j) s))
     \<and> (k = 1 \<longrightarrow> phase_items (merge_phases parsed) k s = slot_get (parsed 1) s)
     \<and> (2 \<le> k \<longrightarrow> phase_items (merge_phases parsed) k s =
           skip_added [] (concat (map (\<lambda>j. slot_get (parsed j) s) (rev [1..<Suc k]))))"
proof -
  have items: "phase_items (merge_phases parsed) k s = items_upto parsed s k"
    using phases_inv_merge_phases [of parsed] assms by (simp add: phases_inv_def)
  have closed: "2 \<le> k \<longrightarrow> items_upto parsed s k =
      skip_added [] (concat (map (\<lambda>j. slot_get (parsed j) s) (rev [1..<Suc k])))"
  proof
    assume "2 \<le> k"
    then obtain n where "k = Suc (Suc n)" by (metis Suc_le_D numeral_2_eq_2 Suc_le_mono)
    then show "items_upto parsed s k =
      skip_added [] (concat (map (\<lambda>j. slot_get (parsed j) s) (rev [1..<Suc k])))"
      using items_upto_closed [of parsed s n] by simp
  qed
  have first: "k = 1 \<longrightarrow> items_upto parsed s k = slot_get (parsed 1) s"
    by simp
  have union: "set (items_upto parsed s k) = (\<Union>j\<in>{1..k}. set (slot_get (parsed j) s))"
    by (rule set_items_upto)
  show ?thesis unfolding items using union first closed by blast
qed

theorem sequential_merge_union_recency_order_witness:
  "(1::nat) \<le> 3 \<and> (3::nat) \<le> 5
   \<and> phase_items (merge_phases example_phases) 3 1 = [30, 11, 20, 10]
   \<and> set (phase_items (merge_phases example_phases) 3 1) = {10, 11, 20, 30}"
proof -
  have up: "rev [1..<Suc 3] = [3, 2, 1]" by (simp add: upt_rec)
  have "{1..3::nat} = {1, 2, 3}" by auto
  then show ?thesis
    using sequential_merge_union_recency_order [of 3 example_phases 1] up
    by (auto simp: example_phases_def slot_get_def)
qed

section \<open>Claims about the numeric slot classifier\<close>

text \<open>
  C8, as stated, fails: a heading that contains "hand" and no weapon cue of the
  specification's list ("weapon", "handed", "main hand", "off hand"), with no cue in
  the body either, is not always classified as Hands (10). "Head and Hands" is taken
  by the earlier test for "head" and yields slot 1; "Off-Hand" holds the cue
  "off-hand", which the specification's list does not have, and yields slot 17.
\<close>

theorem hand_heading_not_always_hands_counterexample:
  "contains ''hand'' (lower ''Head and Hands'')
   \<and> \<not> spec_weapon_cue ''Head and Hands'' ''''
   \<and> section_slot_ids ''Head and Hands'' '''' = [1]
   \<and> contains ''hand'' (lower ''Off-Hand'')
   \<and> \<not> spec_weapon_cue ''Off-Hand'' ''''
   \<and> section_slot_ids ''Off-Hand'' '''' = [17]"
  by code_simp

text \<open>
  C8, amended. In the numeric classifier, a heading that, lower-cased, contains "hand"
  or "glove", none of the keywords tested before the hand test (head, neck, shoulder,
  back, cloak, chest, wrist, idol, relic, totem, libram, ranged, wand) and no weapon cue
  (the cues of \<open>is_weapon_hand_section\<close> and the heading cues of \<open>has_mainhand\<close> and
  \<open>has_offhand\<close>), is classified as Hands, slot 10, whatever the section body holds. In
  particular the heading "Gloves" is classified as Hands for every body.
\<close>

theorem hand_heading_classifies_to_hands:
  "((contains ''hand'' (lower heading_text) \<or> contains ''glove'' (lower heading_text))
      \<and> \<not> earlier_slot_keyword (lower heading_text)
      \<and> \<not> heading_weapon_cue (lower heading_text)
    \<longrightarrow> section_slot_ids heading_text section_text = [10])
   \<and> section_slot_ids ''Gloves'' section_text = [10]"
proof -
  have general: "section_slot_ids h b = [10]"
    if "contains ''hand'' (lower h) \<or> contains ''glove'' (lower h)"
      and "\<not> earlier_slot_keyword (lower h)"
      and "\<not> heading_weapon_cue (lower h)" for h b
    using that
    by (simp add: section_slot_ids_def earlier_slot_keyword_def heading_weapon_cue_def Let_def)
  have gloves: "contains ''glove'' (lower ''Gloves'')"
    "\<not> earlier_slot_keyword (lower ''Gloves'')"
    "\<not> heading_weapon_cue (lower ''Gloves'')"
    by code_simp+
  show ?thesis using general [of heading_text section_text] general [of "''Gloves''" section_text] gloves
    by blast
qed

theorem hand_heading_classifies_to_hands_witness:
  "(contains ''hand'' (lower ''Hands'') \<or> contains ''glove'' (lower ''Hands''))
   \<and> \<not> earlier_slot_keyword (lower ''Hands'')
   \<and> \<not> heading_weapon_cue (lower ''Hands'')
   \<and> section_slot_ids ''Hands'' ''Use a Main Hand weapon'' = [10]
   \<and> section_slot_ids ''Gloves'' ''Use a Main Hand weapon'' = [10]"
proof -
  have pre: "contains ''hand'' (lower ''Hands'')"
    "\<not> earlier_slot_keyword (lower ''Hands'')"
    "\<not> heading_weapon_cue (lower ''Hands'')"
    by code_simp+
  show ?thesis
    using hand_heading_classifies_to_hands [of "''Hands''" "''Use a Main Hand weapon''"] pre
    by blast
qed

section \<open>Claims about the row and item extractor\<close>

text \<open>
  C2. Take a classified section of the markup and the \<open>j\<close>-th row (counting from 0)
  among its rows that pass the validity tests, with \<open>N\<close> item references in its second
  cell. Then \<open>N \<ge> 1\<close>, the output of \<open>extract_by_slot\<close> holds the section's slot with the
  section's items, and the entries of these items whose \<open>order\<close> is \<open>j + 1\<close> are exactly
  \<open>N\<close> entries: the \<open>i\<close>-th of them (from 0) has \<open>tie_group_size = N\<close>,
  \<open>tie_group_index = i + 1\<close>, the id of the \<open>i\<close>-th reference of the cell, and
  \<open>tie_with_previous\<close> set exactly when it is not the first; so \<open>N - 1\<close> of them have
  \<open>tie_with_previous\<close> set. The output is the list of the classified sections that have
  items, in document order.
\<close>

theorem tie_group_invariant:
  assumes "(slot, section) \<in> set (classified_sections markup guide_type)"
    and "j < length (valid_rows section)"
  shows "extract_by_slot markup lookup guide_type =
           map (\<lambda>(slot, section). (slot, section_items guide_type lookup section))
             (filter (\<lambda>(slot, section). section_items guide_type lookup section \<noteq> [])
                (classified_sections markup guide_type))
       \<and> (slot, section_items guide_type lookup section)
             \<in> set (extract_by_slot markup lookup guide_type)
       \<and> (let ids = row_item_ids (valid_rows section ! j);
               group = filter (\<lambda>e. order e = Suc j) (section_items guide_type lookup section)
           in 1 \<le> length ids
              \<and> length group = length ids
              \<and> (\<forall>i < length ids.
                    order (group ! i) = Suc j
                    \<and> tie_group_size (group ! i) = length ids
                    \<and> tie_group_index (group ! i) = Suc i
                    \<and> tie_with_previous (group ! i) = (0 < i)
                    \<and> ref_type (group ! i) = ''item''
                    \<and> ref_id (group ! i) = int_of_digits (ids ! i))
              \<and> length (filter tie_with_previous group) = length ids - 1)"
proof -
  let ?row = "valid_rows section ! j"
  let ?ids = "row_item_ids ?row"
  have "valid_rows section \<noteq> []" using assms(2) by auto
  then have table: "section_table_items lookup section \<noteq> []"
    by (simp add: section_table_items_Nil_iff)
  then have items: "section_items guide_type lookup section = numbered_entries lookup 1 (valid_rows section)"
    by (simp add: section_items_def Let_def section_table_items_numbered)
  have "section_items guide_type lookup section \<noteq> []"
    using table by (simp add: section_items_def Let_def)
  with assms(1) have in_output: "(slot, section_items guide_type lookup section)
             \<in> set (extract_by_slot markup lookup guide_type)"
    by (rule classified_section_in_output)
  have group: "filter (\<lambda>e. order e = Suc j) (section_items guide_type lookup section)
             = row_output lookup (Suc j) ?row"
    using filter_order_numbered_entries [OF assms(2), where k = 1 and lookup = lookup] by (simp add: items)
  have "?row \<in> set (valid_rows section)" using assms(2) by simp
  then have "row_valid ?row" by (simp add: valid_rows_def)
  then have nonempty: "1 \<le> length ?ids"
    by (simp add: row_valid_def Suc_le_eq)
  have members: "\<forall>i < length ?ids.
        order (row_output lookup (Suc j) ?row ! i) = Suc j
      \<and> tie_group_size (row_output lookup (Suc j) ?row ! i) = length ?ids
      \<and> tie_group_index (row_output lookup (Suc j) ?row ! i) = Suc i
      \<and> tie_with_previous (row_output lookup (Suc j) ?row ! i) = (0 < i)
      \<and> ref_type (row_output lookup (Suc j) ?row ! i) = ''item''
      \<and> ref_id (row_output lookup (Suc j) ?row ! i) = int_of_digits (?ids ! i)"
    by (simp add: row_output_def Let_def nth_row_entries)
  have ties: "length (filter tie_with_previous (row_output lookup (Suc j) ?row)) = length ?ids - 1"
    by (simp add: row_output_def Let_def filter_ties_row_entries)
  have groups: "let ids = row_item_ids (valid_rows section ! j);
               group = filter (\<lambda>e. order e = Suc j) (section_items guide_type lookup section)
           in 1 \<le> length ids
              \<and> length group = length ids
              \<and> (\<forall>i < length ids.
                    order (group ! i) = Suc j
                    \<and> tie_group_size (group ! i) = length ids
                    \<and> tie_group_index (group ! i) = Suc i
                    \<and> tie_with_previous (group ! i) = (0 < i)
                    \<and> ref_type (group ! i) = ''item''
                    \<and> ref_id (group ! i) = int_of_digits (ids ! i))
              \<and> length (filter tie_with_previous group) = length ids - 1"
    unfolding Let_def group using nonempty members ties by simp
  show ?thesis
    using extract_by_slot_classified [of markup lookup guide_type] in_output groups by blast
qed

theorem tie_group_invariant_witness:
  "(''Hands'', example_tie_section) \<in> set (classified_sections example_tie_markup ''bis'')
   \<and> 0 < length (valid_rows example_tie_section)
   \<and> (''Hands'', section_items ''bis'' Map.empty example_tie_section)
         \<in> set (extract_by_slot example_tie_markup Map.empty ''bis'')
   \<and> map (\<lambda>e. (tie_group_size e, tie_group_index e, tie_with_previous e, ref_id e))
        (filter (\<lambda>e. order e = Suc 0) (section_items ''bis'' Map.empty example_tie_section))
      = [(2, 1, False, 5), (2, 2, True, 6)]
   \<and> map (\<lambda>(slot, items). (slot, map (\<lambda>e. (order e, tie_group_index e, ref_id e)) items))
        (extract_by_slot example_tie_markup Map.empty ''bis'')
      = [(''Hands'', [(1, 1, 5), (1, 2, 6)])]"
proof -
  have sec: "(''Hands'', example_tie_section) \<in> set (classified_sections example_tie_markup ''bis'')"
    by code_simp
  have rows: "0 < length (valid_rows example_tie_section)" by code_simp
  have ids: "row_item_ids (valid_rows example_tie_section ! 0) = [''5'', ''6'']" by code_simp
  have five: "int_of_digits ''5'' = 5" and six: "int_of_digits ''6'' = 6" by code_simp+
  have whole: "map (\<lambda>(slot, items). (slot, map (\<lambda>e. (order e, tie_group_index e, ref_id e)) items))
        (extract_by_slot example_tie_markup Map.empty ''bis'')
      = [(''Hands'', [(1, 1, 5), (1, 2, 6)])]"
    by code_simp
  let ?group = "filter (\<lambda>e. order e = Suc 0) (section_items ''bis'' Map.empty example_tie_section)"
  note inst = tie_group_invariant [OF sec rows, of Map.empty]
  from inst have out: "(''Hands'', section_items ''bis'' Map.empty example_tie_section)
         \<in> set (extract_by_slot example_tie_markup Map.empty ''bis'')"
    by blast
  from inst
  have len: "length ?group = 2"
    and m0: "tie_group_size (?group ! 0) = 2 \<and> tie_group_index (?group ! 0) = 1
             \<and> tie_with_previous (?group ! 0) = False \<and> ref_id (?group ! 0) = 5"
    and m1: "tie_group_size (?group ! 1) = 2 \<and> tie_group_index (?group ! 1) = 2
             \<and> tie_with_previous (?group ! 1) = True \<and> ref_id (?group ! 1) = 6"
    by (simp_all add: Let_def ids five six)
  from len obtain a b where ab: "?group = [a, b]"
    by (auto simp: length_Suc_conv numeral_2_eq_2)
  have grp: "map (\<lambda>e. (tie_group_size e, tie_group_index e, tie_with_previous e, ref_id e)) ?group
      = [(2, 1, False, 5), (2, 2, True, 6)]"
    using m0 m1 unfolding ab by simp
  show ?thesis using sec rows out grp whole by blast
qed

text \<open>
  C3. The item list of a section is not deduplicated when it comes from table rows:
  an item listed in two rows yields two entries with the same (ref\_type, ref\_id).
  The inline fallback of the same function skips a reference already seen, and the
  table parser of scripts/parse\_wowhead\_html.py does too. (The \<open>order\<close> part of the
  claim holds: see \<open>sorted_orders_numbered_entries\<close> and \<open>filter_order_numbered_entries\<close>.)
\<close>

theorem table_rows_keep_duplicate_items:
  "map (\<lambda>(slot, items). (slot, map (\<lambda>e. (order e, identity e)) items))
       (extract_by_slot duplicate_item_markup Map.empty ''bis'')
     = [(''Head'', [(1, (''item'', 5)), (2, (''item'', 5))])]
   \<and> \<not> distinct (map identity (snd (hd (extract_by_slot duplicate_item_markup Map.empty ''bis''))))"
  by code_simp

text \<open>
  C5, as stated, fails: the fallback to the inline references is taken only for the
  guide type \<^verbatim>\<open>gems_enchants\<close>. In a \<^verbatim>\<open>bis\<close> guide a classified section without a
  valid table row yields no items, whatever references its text holds.
\<close>

theorem no_inline_fallback_for_bis_counterexample:
  "slot_name_of ''bis'' ''Head'' \<in> set (valid_slots_of ''bis'')
   \<and> valid_rows '' see [item=5]'' = []
   \<and> findall ref_match '' see [item=5]'' = [(''item'', ''5'')]
   \<and> section_items ''bis'' Map.empty '' see [item=5]'' = []
   \<and> extract_by_slot ''[h4]Head[/h4] see [item=5]'' Map.empty ''bis'' = []"
  by code_simp

text \<open>
  C5, amended. For a classified section of the markup without a valid table row: when
  the guide type is \<^verbatim>\<open>gems_enchants\<close>, the section's items are those of the inline
  references \<^verbatim>\<open>[item=N]\<close> and \<^verbatim>\<open>[spell=N]\<close> of its text in document order, each
  (ref\_type, ref\_id) kept at its first occurrence only, with \<open>order\<close> 1, 2, 3, ..., the
  first ranked "Best" and every other "Alternative", and the output of \<open>extract_by_slot\<close>
  holds the slot with these items when there is at least one; for any other guide type
  the section has no items. The output is the list of the classified sections that have
  items, in document order, so a section without items has no entry.
\<close>

theorem inline_fallback_for_gems_enchants:
  assumes "(slot, section) \<in> set (classified_sections markup guide_type)"
    and "valid_rows section = []"
  shows "extract_by_slot markup lookup guide_type =
           map (\<lambda>(slot, section). (slot, section_items guide_type lookup section))
             (filter (\<lambda>(slot, section). section_items guide_type lookup section \<noteq> [])
                (classified_sections markup guide_type))
       \<and> (guide_type = ''gems_enchants'' \<longrightarrow>
            (let items = section_items guide_type lookup section;
                 keys = skip_added [] (map ref_key (findall ref_match section))
             in items = extract_inline_refs section lookup
                \<and> map identity items = keys
                \<and> map order items = [1..<Suc (length keys)]
                \<and> (\<forall>i < length items. rank (items ! i) = (if i = 0 then ''Best'' else ''Alternative''))
                \<and> (keys \<noteq> [] \<longrightarrow> (slot, items) \<in> set (extract_by_slot markup lookup guide_type))))
       \<and> (guide_type \<noteq> ''gems_enchants'' \<longrightarrow> section_items guide_type lookup section = [])"
proof -
  from assms(2) have table: "section_table_items lookup section = []"
    by (simp add: section_table_items_Nil_iff)
  let ?inline = "extract_inline_refs section lookup"
  let ?keys = "skip_added [] (map ref_key (findall ref_match section))"
  have inline: "?inline = inline_loop lookup (findall ref_match section) (set []) [] 1"
    by (simp add: extract_inline_refs_def)
  have ids: "map identity ?inline = ?keys"
    unfolding inline by (rule inline_loop_identities)
  have orders: "map order ?inline = [1..<Suc (length ?keys)]"
    unfolding inline using inline_loop_orders [of lookup "findall ref_match section" "[]" 1]
    by simp
  have ranks: "\<forall>i < length ?inline. rank (?inline ! i) = (if i = 0 then ''Best'' else ''Alternative'')"
  proof (intro allI impI)
    fix i assume i: "i < length ?inline"
    have "length (map order ?inline) = length [1..<Suc (length ?keys)]"
      by (simp only: orders)
    then have len: "length ?inline = length ?keys"
      by (simp del: upt_Suc)
    have "order (?inline ! i) = map order ?inline ! i" using i by simp
    also have "\<dots> = [1..<Suc (length ?keys)] ! i" by (simp only: orders)
    also have "\<dots> = 1 + i" using i len by (simp del: upt_Suc)
    finally have ord: "order (?inline ! i) = Suc i" by simp
    have "?inline ! i \<in> set (inline_loop lookup (findall ref_match section) (set []) [] 1)"
      using i unfolding inline by (rule nth_mem)
    then have "rank (?inline ! i) = (if order (?inline ! i) = 1 then ''Best'' else ''Alternative'')"
      by (rule inline_loop_ranks)
    then show "rank (?inline ! i) = (if i = 0 then ''Best'' else ''Alternative'')"
      using ord by simp
  qed
  have gems: "guide_type = ''gems_enchants'' \<longrightarrow> section_items guide_type lookup section = ?inline"
    by (simp add: section_items_def Let_def table)
  have other: "guide_type \<noteq> ''gems_enchants'' \<longrightarrow> section_items guide_type lookup section = []"
    by (simp add: section_items_def Let_def table)
  have in_output: "guide_type = ''gems_enchants'' \<longrightarrow> ?keys \<noteq> [] \<longrightarrow>
      (slot, section_items guide_type lookup section) \<in> set (extract_by_slot markup lookup guide_type)"
  proof (intro impI)
    assume g: "guide_type = ''gems_enchants''" and k: "?keys \<noteq> []"
    from k ids have "?inline \<noteq> []" by auto
    then have "section_items guide_type lookup section \<noteq> []" using gems g by simp
    with assms(1) show "(slot, section_items guide_type lookup section)
        \<in> set (extract_by_slot markup lookup guide_type)"
      by (rule classified_section_in_output)
  qed
  have fallback: "guide_type = ''gems_enchants'' \<longrightarrow>
            (let items = section_items guide_type lookup section;
                 keys = skip_added [] (map ref_key (findall ref_match section))
             in items = extract_inline_refs section lookup
                \<and> map identity items = keys
                \<and> map order items = [1..<Suc (length keys)]
                \<and> (\<forall>i < length items. rank (items ! i) = (if i = 0 then ''Best'' else ''Alternative''))
                \<and> (keys \<noteq> [] \<longrightarrow> (slot, items) \<in> set (extract_by_slot markup lookup guide_type)))"
    unfolding Let_def using gems ids orders ranks in_output by auto
  show ?thesis
    using extract_by_slot_classified [of markup lookup guide_type] fallback other by blast
qed

theorem inline_fallback_for_gems_enchants_witness:
  "(''Head'', example_inline_section) \<in> set (classified_sections example_inline_markup ''gems_enchants'')
   \<and> (''Head'', example_inline_section) \<in> set (classified_sections example_inline_markup ''bis'')
   \<and> valid_rows example_inline_section = []
   \<and> map (\<lambda>e. (order e, rank e, identity e))
        (section_items ''gems_enchants'' Map.empty example_inline_section)
      = [(1, ''Best'', (''spell'', 7)), (2, ''Alternative'', (''item'', 5))]
   \<and> (''Head'', section_items ''gems_enchants'' Map.empty example_inline_section)
         \<in> set (extract_by_slot example_inline_markup Map.empty ''gems_enchants'')
   \<and> section_items ''bis'' Map.empty example_inline_section = []
   \<and> extract_by_slot example_inline_markup Map.empty ''bis'' = []"
proof -
  have sec_g: "(''Head'', example_inline_section)
      \<in> set (classified_sections example_inline_markup ''gems_enchants'')"
    by code_simp
  have sec_b: "(''Head'', example_inline_section) \<in> set (classified_sections example_inline_markup ''bis'')"
    by code_simp
  have rows: "valid_rows example_inline_section = []" by code_simp
  have keys: "skip_added [] (map ref_key (findall ref_match example_inline_section))
            = [(''spell'', 7), (''item'', 5)]" by code_simp
  have ne: "''bis'' \<noteq> ''gems_enchants''" by simp
  have bis_out: "extract_by_slot example_inline_markup Map.empty ''bis'' = []" by code_simp
  let ?items = "section_items ''gems_enchants'' Map.empty example_inline_section"
  note gems_case = inline_fallback_for_gems_enchants [OF sec_g rows, of Map.empty, unfolded Let_def keys]
  from gems_case
  have ids: "map identity ?items = [(''spell'', 7), (''item'', 5)]"
    and ords: "map order ?items = [1..<Suc (length [(''spell'', 7::int), (''item'', 5)])]"
    and ranks: "\<forall>i < length ?items. rank (?items ! i) = (if i = 0 then ''Best'' else ''Alternative'')"
    and out: "(''Head'', ?items) \<in> set (extract_by_slot example_inline_markup Map.empty ''gems_enchants'')"
    by blast+
  have "length (map identity ?items) = length [(''spell'', 7::int), (''item'', 5)]"
    by (simp only: ids)
  then have "length ?items = 2" by simp
  then obtain a b where ab: "?items = [a, b]"
    by (auto simp: length_Suc_conv numeral_2_eq_2)
  have upt: "[1..<Suc (length [(''spell'', 7::int), (''item'', 5)])] = [1, 2]"
    by (simp add: upt_rec)
  have r0: "rank a = ''Best''" using ranks [unfolded ab] by (auto dest: spec [of _ 0])
  have r1: "rank b = ''Alternative''" using ranks [unfolded ab] by (auto dest: spec [of _ 1])
  have gems: "map (\<lambda>e. (order e, rank e, identity e)) ?items
      = [(1, ''Best'', (''spell'', 7)), (2, ''Alternative'', (''item'', 5))]"
    using ids ords r0 r1 unfolding ab upt by simp
  have bis: "section_items ''bis'' Map.empty example_inline_section = []"
    using inline_fallback_for_gems_enchants [OF sec_b rows, of Map.empty] ne
    by blast
  show ?thesis using sec_g sec_b rows gems out bis bis_out by blast
qed

text \<open>
  C7, as stated, fails: a classified section without table rows and without inline
  references does not appear in the output with an empty item list; the guard
  \<^verbatim>\<open>if items:\<close> leaves it out.
\<close>

theorem empty_slot_not_recorded_counterexample:
  "slot_name_of ''gems_enchants'' ''Head'' \<in> set (valid_slots_of ''gems_enchants'')
   \<and> valid_rows '' nothing here'' = []
   \<and> findall ref_match '' nothing here'' = []
   \<and> extract_by_slot ''[h4]Head[/h4] nothing here'' Map.empty ''gems_enchants'' = []
   \<and> extract_by_slot ''[h4]Head[/h4] nothing here'' Map.empty ''gems_enchants'' \<noteq> [(''Head'', [])]"
  by code_simp

text \<open>
  C7, amended. A classified section without valid table rows and without inline
  references has no items; a section without items adds nothing to the output of
  \<open>extract_by_slot\<close> (the loop goes on with the next header, no error is raised), so
  every slot of the output has at least one item.
\<close>

theorem empty_section_is_left_out:
  "(valid_rows section = [] \<and> findall ref_match section = []
      \<longrightarrow> section_items guide_type lookup section = [])
   \<and> (section_items guide_type lookup (section_of markup header_end later) = []
      \<longrightarrow> sections_loop markup lookup guide_type ((header_start, header_end, header_name) # later)
          = sections_loop markup lookup guide_type later)
   \<and> (\<forall>entry \<in> set (extract_by_slot markup lookup guide_type). snd entry \<noteq> [])"
proof (intro conjI impI ballI)
  assume "valid_rows section = [] \<and> findall ref_match section = []"
  then show "section_items guide_type lookup section = []"
    by (simp add: section_items_def Let_def section_table_items_Nil_iff extract_inline_refs_Nil)
next
  assume "section_items guide_type lookup (section_of markup header_end later) = []"
  then show "sections_loop markup lookup guide_type ((header_start, header_end, header_name) # later)
          = sections_loop markup lookup guide_type later"
    by (rule sections_loop_skip_empty)
next
  fix entry assume "entry \<in> set (extract_by_slot markup lookup guide_type)"
  then have "(fst entry, snd entry) \<in> set (sections_loop markup lookup guide_type (headers_of markup))"
    by (simp add: extract_by_slot_def)
  then show "snd entry \<noteq> []" using sections_loop_entries by blast
qed

theorem empty_section_is_left_out_witness:
  "valid_rows '' nothing here'' = [] \<and> findall ref_match '' nothing here'' = []
   \<and> section_items ''gems_enchants'' Map.empty '' nothing here'' = []
   \<and> sections_loop ''[h4]Head[/h4] nothing here'' Map.empty ''gems_enchants'' [(0, 13, ''Head'')] = []
   \<and> extract_by_slot ''[h4]Head[/h4][item=5]'' Map.empty ''gems_enchants'' \<noteq> []
   \<and> snd (hd (extract_by_slot ''[h4]Head[/h4][item=5]'' Map.empty ''gems_enchants'')) \<noteq> []"
proof -
  have pre: "valid_rows '' nothing here'' = [] \<and> findall ref_match '' nothing here'' = []"
    by code_simp
  have sec: "section_of ''[h4]Head[/h4] nothing here'' 13 [] = '' nothing here''" by code_simp
  have out: "extract_by_slot ''[h4]Head[/h4][item=5]'' Map.empty ''gems_enchants'' \<noteq> []"
    by code_simp
  note inst = empty_section_is_left_out [of "'' nothing here''" "''gems_enchants''" Map.empty
      "''[h4]Head[/h4] nothing here''" 13 "[]" 0 "''Head''"]
  from inst pre have items: "section_items ''gems_enchants'' Map.empty '' nothing here'' = []"
    by blast
  from inst items sec
  have loop: "sections_loop ''[h4]Head[/h4] nothing here'' Map.empty ''gems_enchants'' [(0, 13, ''Head'')] = []"
    by simp
  have all: "\<forall>entry \<in> set (extract_by_slot ''[h4]Head[/h4][item=5]'' Map.empty ''gems_enchants'').
         snd entry \<noteq> []"
    using empty_section_is_left_out [of "[]" "''gems_enchants''" Map.empty "''[h4]Head[/h4][item=5]''" 0 "[]" 0 "[]"]
    by blast
  have "hd (extract_by_slot ''[h4]Head[/h4][item=5]'' Map.empty ''gems_enchants'')
          \<in> set (extract_by_slot ''[h4]Head[/h4][item=5]'' Map.empty ''gems_enchants'')"
    using out by (rule hd_in_set)
  then have first: "snd (hd (extract_by_slot ''[h4]Head[/h4][item=5]'' Map.empty ''gems_enchants'')) \<noteq> []"
    using all by blast
  show ?thesis using pre items loop out first by blast
qed

section \<open>Claims about the markup locators\<close>

text \<open>
  C6, as stated, fails: on a page without a \<^verbatim>\<open>printHtml\<close> call (and without a
  \<^verbatim>\<open>noscript\<close> block) \<open>parse_guide_slots\<close> raises nothing and returns the empty slot map:
  it takes the \<^verbatim>\<open>None\<close> of its locator as the signal to read \<^verbatim>\<open>noscript\<close> instead, and
  ends in \<^verbatim>\<open>return {}\<close>.
\<close>

theorem guide_parser_returns_empty_map_counterexample:
  "\<not> has_print_html_call page_without_markup
   \<and> extract_guide_markup page_without_markup = None
   \<and> extract_noscript page_without_markup = None
   \<and> parse_guide_slots (\<lambda>s. s) page_without_markup = Map.empty"
proof -
  have absent: "\<not> has_print_html_call page_without_markup" by code_simp
  have markup: "extract_guide_markup page_without_markup = None" by code_simp
  have noscript: "extract_noscript page_without_markup = None" by code_simp
  have "guide_source page_without_markup = None"
    by (simp add: guide_source_def markup noscript)
  then have "parse_guide_slots (\<lambda>s. s) page_without_markup = Map.empty"
    by (simp add: parse_guide_slots_def)
  then show ?thesis using absent markup noscript by simp
qed

text \<open>
  C6, amended. When the page text holds no call \<^verbatim>\<open>WH.markup.printHtml("...")\<close> with a
  closed string literal as first argument: \<open>extract_markup\<close> raises its \<^verbatim>\<open>ValueError\<close>
  (whatever \<^verbatim>\<open>json.loads\<close> does); \<open>extract_guide_markup\<close> and
  \<open>extract_print_html_payload\<close> return \<^verbatim>\<open>None\<close>, never an empty string; and
  \<open>parse_guide_slots\<close> raises nothing: it reads the sections of the \<^verbatim>\<open>noscript\<close> block when
  there is one that is not empty, and returns the empty slot map otherwise.
\<close>

theorem absent_print_html_call_handling:
  assumes "\<not> has_print_html_call html_text"
  shows "extract_markup json_loads html_text
           = Inl (ValueError ''Could not find WH.markup.printHtml content'')
       \<and> extract_guide_markup html_text = None
       \<and> extract_print_html_payload html_text = None
       \<and> parse_guide_slots html_unescape html_text =
             (case extract_noscript html_text of
                Some (c # cs) \<Rightarrow>
                  slots_loop False (source_sections html_unescape False (c # cs)) Map.empty
              | _ \<Rightarrow> Map.empty)"
proof -
  have items: "re_search items_print_html_match html_text = None"
    using re_search_found [of items_print_html_match html_text] items_match_is_call assms
    by blast
  have guide: "re_search guide_markup_match html_text = None"
    using re_search_found [of guide_markup_match html_text] guide_match_is_call assms
    by blast
  have payload: "re_search payload_match html_text = None"
    using re_search_found [of payload_match html_text] payload_match_is_call assms
    by blast
  have fallback: "re_search payload_fallback_match html_text = None"
    using re_search_found [of payload_fallback_match html_text] payload_fallback_match_is_call assms
    by blast
  have markup: "extract_guide_markup html_text = None"
    by (simp add: extract_guide_markup_def guide)
  have parse: "parse_guide_slots html_unescape html_text =
             (case extract_noscript html_text of
                Some (c # cs) \<Rightarrow>
                  slots_loop False (source_sections html_unescape False (c # cs)) Map.empty
              | _ \<Rightarrow> Map.empty)"
    by (simp add: parse_guide_slots_def guide_source_def markup split: option.splits list.splits)
  show ?thesis
    using parse markup
    by (simp add: extract_markup_def extract_print_html_payload_def items payload fallback)
qed

theorem absent_print_html_call_handling_witness:
  "\<not> has_print_html_call page_without_markup
   \<and> extract_markup (\<lambda>literal. Inr literal) page_without_markup
       = Inl (ValueError ''Could not find WH.markup.printHtml content'')
   \<and> extract_guide_markup page_without_markup = None
   \<and> extract_print_html_payload page_without_markup = None
   \<and> parse_guide_slots (\<lambda>s. s) page_without_markup = Map.empty
   \<and> \<not> has_print_html_call page_with_noscript_only
   \<and> parse_guide_slots (\<lambda>s. s) page_with_noscript_only 1 = Some [5]"
proof -
  have absent: "\<not> has_print_html_call page_without_markup" by code_simp
  have noscript: "extract_noscript page_without_markup = None" by code_simp
  have absent2: "\<not> has_print_html_call page_with_noscript_only" by code_simp
  have fallback: "(case extract_noscript page_with_noscript_only of
                Some (c # cs) \<Rightarrow>
                  slots_loop False (source_sections (\<lambda>s. s) False (c # cs)) Map.empty
              | _ \<Rightarrow> Map.empty) 1 = Some [5]"
    by code_simp
  show ?thesis
    using absent_print_html_call_handling [OF absent, of "\<lambda>literal. Inr literal" "\<lambda>s. s"]
          absent_print_html_call_handling [OF absent2, of "\<lambda>literal. Inr literal" "\<lambda>s. s"]
          absent absent2 noscript fallback
    by simp
qed

section \<open>Claims about the numeric guide parser\<close>

text \<open>
  C10, as stated, fails: when the last section that classifies to a slot has no items,
  its empty list does not replace the earlier one; the loop skips it
  (\<^verbatim>\<open>if not ranked: continue\<close>) and the slot keeps the list of the earlier section.
  \<^verbatim>\<open>html.unescape\<close> is the identity on the headings of this page.
\<close>

theorem empty_last_section_does_not_replace_counterexample:
  "guide_source page_with_empty_last_section
     = Some (True, ''[h2]Head[/h2][item=5][h3]Best Head Enchant[/h3]no items'')
   \<and> source_sections (\<lambda>s. s) True ''[h2]Head[/h2][item=5][h3]Best Head Enchant[/h3]no items''
     = [(''Head'', ''[item=5]''), (''Best Head Enchant'', ''no items'')]
   \<and> section_slot_ids ''Head'' ''[item=5]'' = [1]
   \<and> section_slot_ids ''Best Head Enchant'' ''no items'' = [1]
   \<and> section_ranked True ''[item=5]'' = [5]
   \<and> section_ranked True ''no items'' = []
   \<and> parse_guide_slots (\<lambda>s. s) page_with_empty_last_section 1 = Some [5]"
  by code_simp

text \<open>
  C10, amended. The output maps a slot id to the ranked list of the last section, in
  document order, that classifies to the slot and has at least one item; a slot no
  such section writes is absent. Each such section's assignment replaces the earlier
  entry. An assignment gives every target id of the section the same list, and the
  two ring ids 11 and 12, and the two trinket ids 13 and 14, always hold identical
  entries in the output.
\<close>

theorem last_section_with_items_wins:
  "parse_guide_slots html_unescape html_text slot_id =
     (case guide_source html_text of
        None \<Rightarrow> None
      | Some (from_markup, source_text) \<Rightarrow>
          (case filter (writes_slot from_markup slot_id)
                       (source_sections html_unescape from_markup source_text) of
             [] \<Rightarrow> None
           | q # qs \<Rightarrow> Some (section_ranked from_markup (snd (last (q # qs))))))
   \<and> (slot_id \<in> set target_slots
        \<longrightarrow> assign_slots target_slots ranked slot_to_items slot_id = Some ranked)
   \<and> parse_guide_slots html_unescape html_text 11 = parse_guide_slots html_unescape html_text 12
   \<and> parse_guide_slots html_unescape html_text 13 = parse_guide_slots html_unescape html_text 14"
proof -
  have rings: "writes_slot fm 11 = writes_slot fm 12" for fm
    by (rule ext) (simp add: writes_slot_def ring_ids_together)
  have trinkets: "writes_slot fm 13 = writes_slot fm 14" for fm
    by (rule ext) (simp add: writes_slot_def trinket_ids_together)
  have r: "parse_guide_slots html_unescape html_text 11 = parse_guide_slots html_unescape html_text 12"
    unfolding parse_guide_slots_last_writer rings ..
  have t: "parse_guide_slots html_unescape html_text 13 = parse_guide_slots html_unescape html_text 14"
    unfolding parse_guide_slots_last_writer trinkets ..
  show ?thesis
    using r t parse_guide_slots_last_writer [of html_unescape html_text slot_id]
    by (simp add: assign_slots_apply)
qed

theorem last_section_with_items_wins_witness:
  "parse_guide_slots (\<lambda>s. s) page_with_two_head_sections 1 = Some [7]
   \<and> parse_guide_slots (\<lambda>s. s) page_with_two_head_sections 11 = Some [9]
   \<and> parse_guide_slots (\<lambda>s. s) page_with_two_head_sections 12 = Some [9]
   \<and> (12::int) \<in> set [11, 12]
   \<and> assign_slots [11, 12] [9] Map.empty 12 = Some [9]"
proof -
  have head: "(case guide_source page_with_two_head_sections of
        None \<Rightarrow> None
      | Some (from_markup, source_text) \<Rightarrow>
          (case filter (writes_slot from_markup 1)
                       (source_sections (\<lambda>s. s) from_markup source_text) of
             [] \<Rightarrow> None
           | q # qs \<Rightarrow> Some (section_ranked from_markup (snd (last (q # qs)))))) = Some [7]"
    by code_simp
  have ring: "(case guide_source page_with_two_head_sections of
        None \<Rightarrow> None
      | Some (from_markup, source_text) \<Rightarrow>
          (case filter (writes_slot from_markup 11)
                       (source_sections (\<lambda>s. s) from_markup source_text) of
             [] \<Rightarrow> None
           | q # qs \<Rightarrow> Some (section_ranked from_markup (snd (last (q # qs)))))) = Some [9]"
    by code_simp
  have member: "(12::int) \<in> set [11, 12]" by simp
  show ?thesis
    using last_section_with_items_wins [of "\<lambda>s. s" page_with_two_head_sections 1 "[11, 12]" "[9]" Map.empty]
          last_section_with_items_wins [of "\<lambda>s. s" page_with_two_head_sections 11 "[11, 12]" "[9]" Map.empty]
          last_section_with_items_wins [of "\<lambda>s. s" page_with_two_head_sections 12 "[11, 12]" "[9]" Map.empty]
          head ring member
    by simp
qed

section \<open>Claims about the effect of the merge on its arguments\<close>

text \<open>
  C9. Let the two input dicts exist in the store, with the lists they hold, and let the
  loop visit the keys of either input in any order. Then the call returns a dict at
  an address that was free before, different from both inputs; no object that existed
  before the call is changed, so both inputs still stand for the same slot maps (the same
  keys, and for each the same items in the same order); the lists of the result are new
  objects too; and the result stands for \<open>merge_slot_maps\<close> of the two input maps.
\<close>

theorem merge_never_mutates_inputs:
  assumes "allocated_map h prev_slots" and "allocated_map h curr_slots"
    and "set slot_ids = dom (read_map h prev_slots) \<union> dom (read_map h curr_slots)"
  shows "case merge_slot_maps_store slot_ids prev_slots curr_slots h of
           (merged, h') \<Rightarrow>
             merged = next_addr h \<and> merged \<noteq> prev_slots \<and> merged \<noteq> curr_slots
             \<and> (\<forall>a < next_addr h. dict_objs h' a = dict_objs h a \<and> list_objs h' a = list_objs h a)
             \<and> read_map h' prev_slots = read_map h prev_slots
             \<and> read_map h' curr_slots = read_map h curr_slots
             \<and> (\<forall>s a. dict_get h' merged s = Some a \<longrightarrow> next_addr h < a)
             \<and> read_map h' merged = merge_slot_maps (read_map h prev_slots) (read_map h curr_slots)"
proof -
  obtain merged h' where res: "merge_slot_maps_store slot_ids prev_slots curr_slots h = (merged, h')"
    by (cases "merge_slot_maps_store slot_ids prev_slots curr_slots h")
  have merged: "merged = next_addr h"
    using merge_inv_result(2) [OF assms(1,2), of slot_ids] by (simp add: res)
  have inv: "merge_inv h prev_slots curr_slots (set slot_ids) h'"
    using merge_inv_result(1) [OF assms(1,2), of slot_ids] by (simp add: res)
  then have frame: "\<forall>a < next_addr h. dict_objs h' a = dict_objs h a \<and> list_objs h' a = list_objs h a"
    and fresh: "\<forall>s a. dict_get h' merged s = Some a \<longrightarrow> next_addr h < a"
    and content: "\<And>s. read_map h' merged s =
        (if s \<in> set slot_ids
            \<and> merge_ordered (read_map h prev_slots) (read_map h curr_slots) s \<noteq> []
         then Some (merge_ordered (read_map h prev_slots) (read_map h curr_slots) s) else None)"
    unfolding merged by (auto simp: merge_inv_def)
  have distinct: "merged \<noteq> prev_slots" "merged \<noteq> curr_slots"
    using assms(1,2) merged by (auto simp: allocated_map_def)
  have prev: "read_map h' prev_slots = read_map h prev_slots"
    using assms(1) frame by (rule frame_read_map)
  have curr: "read_map h' curr_slots = read_map h curr_slots"
    using assms(2) frame by (rule frame_read_map)
  have result: "read_map h' merged = merge_slot_maps (read_map h prev_slots) (read_map h curr_slots)"
    by (rule ext) (simp add: content assms(3) merge_slot_maps_def Let_def)
  show ?thesis
    unfolding res using merged distinct frame prev curr fresh result by simp
qed

theorem merge_never_mutates_inputs_witness:
  "allocated_map example_store 2 \<and> allocated_map example_store 3
   \<and> set [12, 1, 11] = dom (read_map example_store 2) \<union> dom (read_map example_store 3)
   \<and> fst (merge_slot_maps_store [12, 1, 11] 2 3 example_store) = 7
   \<and> read_map (snd (merge_slot_maps_store [12, 1, 11] 2 3 example_store)) 2 = read_map example_store 2
   \<and> read_map (snd (merge_slot_maps_store [12, 1, 11] 2 3 example_store)) 3 = read_map example_store 3
   \<and> read_map (snd (merge_slot_maps_store [12, 1, 11] 2 3 example_store)) 7 1 = Some [20, 10]"
proof -
  have dg2: "dict_get example_store 2 = [1 \<mapsto> 4]"
    and dg3: "dict_get example_store 3 = [1 \<mapsto> 5, 11 \<mapsto> 6, 12 \<mapsto> 6]"
    by (rule ext, simp add: dict_get_def example_store_def)+
  have n: "next_addr example_store = 7" by (simp add: example_store_def)
  have a2: "allocated_map example_store 2"
    unfolding allocated_map_def dg2 n by (auto split: if_splits)
  have a3: "allocated_map example_store 3"
    unfolding allocated_map_def dg3 n by (auto split: if_splits)
  have d2: "dom (read_map example_store 2) = {1}"
    unfolding read_map_def dg2 by (auto split: if_splits)
  have d3: "dom (read_map example_store 3) = {1, 11, 12}"
    unfolding read_map_def dg3 by (auto split: if_splits)
  have keys: "set [12, 1, 11] = dom (read_map example_store 2) \<union> dom (read_map example_store 3)"
    unfolding d2 d3 by auto
  have r2: "read_map example_store 2 1 = Some [10]"
    unfolding read_map_def dg2 by (simp add: read_list_def example_store_def)
  have r3: "read_map example_store 3 1 = Some [20, 10]"
    unfolding read_map_def dg3 by (simp add: read_list_def example_store_def)
  have m: "merge_slot_maps (read_map example_store 2) (read_map example_store 3) 1 = Some [20, 10]"
    by (simp add: merge_slot_maps_def merge_ordered_def slot_get_def r2 r3 d2 d3)
  show ?thesis
    using merge_never_mutates_inputs [OF a2 a3 keys] a2 a3 keys m n
    by (auto simp: split_def)
qed

end
